theory Spec2Isabelle
  imports Main "HOL-Library.Word" "HOL-Library.AList"
begin

section \<open>gozk: session and watch-event subsystem\<close>

text \<open>
  A shallow embedding of \<^verbatim>\<open>zookeeper/gozk.go\<close>. Go structs are records, the
  process-wide variables of the watch registry are one record that every operation takes
  and returns, Go panics are a value of the result type, and the calls into the ZooKeeper
  C client (which is not part of the repository) are the fields of a record of functions
  over the state of everything outside the Go process.
\<close>

subsection \<open>Events\<close>

text \<open>\<^verbatim>\<open>type Event struct { Type int; Path string; State int }\<close>\<close>

record Event =
  Type :: int
  Path :: string
  State :: int

text \<open>Constants for Event Type: \<^verbatim>\<open>EVENT_CREATED = iota + 1\<close> and the ones after it.\<close>

definition EVENT_CREATED :: int where "EVENT_CREATED = 1"
definition EVENT_DELETED :: int where "EVENT_DELETED = 2"
definition EVENT_CHANGED :: int where "EVENT_CHANGED = 3"
definition EVENT_CHILD :: int where "EVENT_CHILD = 4"
definition EVENT_SESSION :: int where "EVENT_SESSION = -1"
definition EVENT_NOTWATCHING :: int where "EVENT_NOTWATCHING = -2"
definition EVENT_CLOSED :: int where "EVENT_CLOSED = 0"

text \<open>Constants for Event State.\<close>

definition STATE_EXPIRED_SESSION :: int where "STATE_EXPIRED_SESSION = -112"
definition STATE_AUTH_FAILED :: int where "STATE_AUTH_FAILED = -113"
definition STATE_CONNECTING :: int where "STATE_CONNECTING = 1"
definition STATE_ASSOCIATING :: int where "STATE_ASSOCIATING = 2"
definition STATE_CONNECTED :: int where "STATE_CONNECTED = 3"
definition STATE_CLOSED :: int where "STATE_CLOSED = 0"

text \<open>
  \<^verbatim>\<open>func (e Event) Ok() bool { return e.State == STATE_CONNECTED }\<close>
\<close>

definition Ok :: "Event \<Rightarrow> bool" where
  "Ok e = (State e = STATE_CONNECTED)"

text \<open>The zeroed Event, which a receive from a closed channel yields.\<close>

definition zero_Event :: Event where
  "zero_Event = \<lparr>Type = 0, Path = [], State = 0\<rparr>"

subsection \<open>Errors\<close>

text \<open>
  \<^verbatim>\<open>type Error int\<close> with the constants \<^verbatim>\<open>ZOK Error = C.ZOK\<close> and so on. The numeric
  values live in the C header; the Go code only compares the codes, so they are an
  enumeration here, and the status \<^verbatim>\<open>rc\<close> of a C call is a value of it.
\<close>

datatype Error =
    ZOK | ZSYSTEMERROR | ZRUNTIMEINCONSISTENCY | ZDATAINCONSISTENCY | ZCONNECTIONLOSS
  | ZMARSHALLINGERROR | ZUNIMPLEMENTED | ZOPERATIONTIMEOUT | ZBADARGUMENTS | ZINVALIDSTATE
  | ZAPIERROR | ZNONODE | ZNOAUTH | ZBADVERSION | ZNOCHILDRENFOREPHEMERALS | ZNODEEXISTS
  | ZNOTEMPTY | ZSESSIONEXPIRED | ZINVALIDCALLBACK | ZINVALIDACL | ZAUTHFAILED | ZCLOSING
  | ZNOTHING | ZSESSIONMOVED

text \<open>
  A non-nil \<^verbatim>\<open>os.Error\<close>: a ZooKeeper \<^verbatim>\<open>Error\<close> code, or the errno that cgo returns
  as the second result of a C call. \<^verbatim>\<open>nil\<close> is \<open>None\<close> of \<open>os_error option\<close>. Comparing
  two interface values compares the dynamic type and the value, so an errno never equals
  a code.
\<close>

datatype os_error = Code Error | Errno int

text \<open>
  \<^verbatim>\<open>func zkError(rc C.int, cerr os.Error) os.Error\<close>: nil for ZOK, the errno for
  ZSYSTEMERROR when there is one, the code otherwise.
\<close>

definition zkError :: "Error \<Rightarrow> os_error option \<Rightarrow> os_error option" where
  "zkError rc cerr =
     (if rc = ZOK then None
      else if rc = ZSYSTEMERROR \<and> cerr \<noteq> None then cerr
      else Some (Code rc))"

subsection \<open>Node stat and ACL\<close>

text \<open>
  \<^verbatim>\<open>type Stat struct { c C.struct_Stat }\<close>; the fields are those the accessor methods
  read, with the widths the accessors convert to.
\<close>

record Stat =
  czxid :: "64 word"
  mzxid :: "64 word"
  ctime :: "64 word"
  mtime :: "64 word"
  version :: "32 word"
  cversion :: "32 word"
  aversion :: "32 word"
  ephemeralOwner :: "64 word"
  dataLength :: "32 word"
  numChildren :: "32 word"
  pzxid :: "64 word"

text \<open>\<^verbatim>\<open>var cstat Stat\<close>: the zeroed value.\<close>

definition zero_Stat :: Stat where
  "zero_Stat = \<lparr>czxid = 0, mzxid = 0, ctime = 0, mtime = 0, version = 0, cversion = 0,
     aversion = 0, ephemeralOwner = 0, dataLength = 0, numChildren = 0, pzxid = 0\<rparr>"

text \<open>\<^verbatim>\<open>func (stat *Stat) Version() int32\<close>\<close>

definition Version :: "Stat \<Rightarrow> 32 word" where
  "Version stat = version stat"

record ACL =
  Perms :: "32 word"
  Scheme :: string
  Id :: string

subsection \<open>Panics, channels and the process state\<close>

text \<open>A Go panic ends the operation (and the process); it is a value of the result.\<close>

datatype 'a outcome = Panic string | Done 'a

type_synonym uintptr = "64 word"
type_synonym chan_ref = nat
type_synonym conn_ref = nat
type_synonym zhandle = nat

text \<open>
  A buffered \<^verbatim>\<open>chan Event\<close>: capacity, queued events, whether it is closed. \<open>ch_sent\<close>
  is a history variable, not part of the Go channel: it counts the sends the channel has
  accepted, so that properties about everything a stream ever carried can be stated
  after the consumer has taken events out.
\<close>

record chan =
  ch_cap :: nat
  ch_buf :: "Event list"
  ch_closed :: bool
  ch_sent :: nat

text \<open>
  \<^verbatim>\<open>type Conn struct { watchChannels map[uintptr]chan Event; sessionWatchId uintptr;
  handle *C.zhandle_t; mutex sync.Mutex }\<close>. A Go map is an association list with
  distinct keys; a channel value is a reference into the store of channels; a nil handle
  is \<open>None\<close>. The operations are atomic here, so the mutexes have no counterpart.
\<close>

record Conn =
  watchChannels :: "(uintptr \<times> chan_ref) list"
  sessionWatchId :: uintptr
  handle :: "zhandle option"

text \<open>
  The process: the package variables \<^verbatim>\<open>watchConns\<close>, \<^verbatim>\<open>watchCounter\<close> and
  \<^verbatim>\<open>watchLoopCounter\<close>, and the store of the \<^verbatim>\<open>Conn\<close> objects and channels that
  pointers refer to (a reference is an index; allocation appends). \<open>watchLoopRunning\<close>
  records that \<^verbatim>\<open>go _watchLoop()\<close> has been started.
\<close>

record process =
  conns :: "Conn list"
  chans :: "chan list"
  watchConns :: "(uintptr \<times> conn_ref) list"
  watchCounter :: uintptr
  watchLoopCounter :: int
  watchLoopRunning :: bool

definition init_process :: process where
  "init_process = \<lparr>conns = [], chans = [], watchConns = [], watchCounter = 0,
     watchLoopCounter = 0, watchLoopRunning = False\<rparr>"

definition nil_deref :: string where
  "nil_deref = ''invalid memory address or nil pointer dereference''"

text \<open>\<^verbatim>\<open>make(chan Event, buf)\<close>\<close>

definition new_chan :: "nat \<Rightarrow> chan" where
  "new_chan n = \<lparr>ch_cap = n, ch_buf = [], ch_closed = False, ch_sent = 0\<rparr>"

text \<open>\<^verbatim>\<open>close(ch)\<close>: closing a closed or nil channel panics.\<close>

definition close_chan :: "chan_ref \<Rightarrow> process \<Rightarrow> process outcome" where
  "close_chan ch s =
     (if ch < length (chans s) then
        (if ch_closed (chans s ! ch) then Panic ''close of closed channel''
         else Done (s\<lparr>chans := list_update (chans s) ch ((chans s ! ch)\<lparr>ch_closed := True\<rparr>)\<rparr>))
      else Panic ''close of nil channel'')"

text \<open>
  The send of \<^verbatim>\<open>select { case ch <- event: ... default: ... }\<close>: \<open>None\<close> is the
  default branch (the send cannot proceed now). A send on a closed channel panics.
\<close>

definition try_send :: "chan \<Rightarrow> Event \<Rightarrow> chan option outcome" where
  "try_send c e =
     (if ch_closed c then Panic ''send on closed channel''
      else if length (ch_buf c) < ch_cap c
        then Done (Some (c\<lparr>ch_buf := ch_buf c @ [e], ch_sent := Suc (ch_sent c)\<rparr>))
      else Done None)"

text \<open>
  The consumer's \<^verbatim>\<open>event, ok := <-ch\<close>: \<open>None\<close> when the receive would block, else
  the event, \<^verbatim>\<open>ok\<close> and the channel after it. A closed and drained channel yields the
  zeroed Event with \<^verbatim>\<open>ok == false\<close>.
\<close>

definition recv :: "chan \<Rightarrow> (Event \<times> bool \<times> chan) option" where
  "recv c =
     (case ch_buf c of
        e # es \<Rightarrow> Some (e, True, c\<lparr>ch_buf := es\<rparr>)
      | [] \<Rightarrow> if ch_closed c then Some (zero_Event, False, c) else None)"

subsection \<open>Watch registry\<close>


text \<open>Assignment to \<^verbatim>\<open>zk.watchChannels\<close> through the pointer \<^verbatim>\<open>zk\<close>.\<close>

definition set_watchChannels ::
  "conn_ref \<Rightarrow> (uintptr \<times> chan_ref) list \<Rightarrow> process \<Rightarrow> process" where
  "set_watchChannels zk m s = s\<lparr>conns := list_update (conns s) zk ((conns s ! zk)\<lparr>watchChannels := m\<rparr>)\<rparr>"

text \<open>
  \<^verbatim>\<open>func (zk *Conn) createWatch(session bool) (watchId uintptr, watchChannel chan Event)\<close>.
  \<^verbatim>\<open>watchCounter += 1\<close> is uintptr arithmetic and wraps around.
\<close>

definition createWatch ::
  "conn_ref \<Rightarrow> bool \<Rightarrow> process \<Rightarrow> (uintptr \<times> chan_ref \<times> process) outcome" where
  "createWatch zk session s =
     (let buf = (if session then 32 else 1);
          watchChannel = length (chans s);
          s1 = s\<lparr>chans := chans s @ [new_chan buf]\<rparr>;
          watchId = watchCounter s1;
          s2 = s1\<lparr>watchCounter := watchCounter s1 + 1\<rparr>
      in if zk < length (conns s2) then
           Done (watchId, watchChannel,
             (set_watchChannels zk
                (AList.update watchId watchChannel (watchChannels (conns s2 ! zk))) s2)
             \<lparr>watchConns := AList.update watchId zk (watchConns s2)\<rparr>)
         else Panic nil_deref)"

text \<open>
  The two statements \<^verbatim>\<open>zk.watchChannels[watchId] = nil, false\<close> and
  \<^verbatim>\<open>watchConns[watchId] = nil, false\<close>, which forgetWatch, closeAllWatches and
  sendEvent each contain; this form of assignment deletes the key.
\<close>

definition delete_watch :: "conn_ref \<Rightarrow> uintptr \<Rightarrow> process \<Rightarrow> process" where
  "delete_watch zk watchId s =
     (set_watchChannels zk (AList.delete watchId (watchChannels (conns s ! zk))) s)
       \<lparr>watchConns := AList.delete watchId (watchConns s)\<rparr>"

text \<open>\<^verbatim>\<open>func (zk *Conn) forgetWatch(watchId uintptr)\<close>\<close>

definition forgetWatch :: "conn_ref \<Rightarrow> uintptr \<Rightarrow> process \<Rightarrow> process outcome" where
  "forgetWatch zk watchId s =
     (if zk < length (conns s) then Done (delete_watch zk watchId s) else Panic nil_deref)"

text \<open>
  \<^verbatim>\<open>func (zk *Conn) closeAllWatches()\<close>: the loop over the entries of
  \<^verbatim>\<open>zk.watchChannels\<close>, here in the order of the list (Go leaves the order open). Each
  round closes the channel and deletes the id from both maps.
\<close>

fun closeAll_loop ::
  "conn_ref \<Rightarrow> (uintptr \<times> chan_ref) list \<Rightarrow> process \<Rightarrow> process outcome" where
  "closeAll_loop zk [] s = Done s"
| "closeAll_loop zk ((watchId, ch) # rest) s =
     (case close_chan ch s of
        Panic m \<Rightarrow> Panic m
      | Done s1 \<Rightarrow>
          closeAll_loop zk rest (delete_watch zk watchId s1))"

definition closeAllWatches :: "conn_ref \<Rightarrow> process \<Rightarrow> process outcome" where
  "closeAllWatches zk s =
     (if zk < length (conns s) then closeAll_loop zk (watchChannels (conns s ! zk)) s
      else Panic nil_deref)"

text \<open>
  \<^verbatim>\<open>func sendEvent(watchId uintptr, event Event)\<close>, the dispatcher's delivery of one
  notification.
\<close>

definition sendEvent :: "uintptr \<Rightarrow> Event \<Rightarrow> process \<Rightarrow> process outcome" where
  "sendEvent watchId event s =
     (if State event = STATE_CLOSED then Panic ''Attempted to send a CLOSED event''
      else case map_of (watchConns s) watchId of
        None \<Rightarrow> Done s
      | Some zk \<Rightarrow>
          if \<not> zk < length (conns s) then Panic nil_deref
          else if Type event = EVENT_SESSION \<and> watchId \<noteq> sessionWatchId (conns s ! zk)
                  \<and> \<not> (State event = STATE_EXPIRED_SESSION \<or> State event = STATE_AUTH_FAILED)
          then Done s
          else case map_of (watchChannels (conns s ! zk)) watchId of
            None \<Rightarrow> Done s
          | Some ch \<Rightarrow>
              if \<not> ch < length (chans s) then Panic nil_deref
              else case try_send (chans s ! ch) event of
                Panic m \<Rightarrow> Panic m
              | Done None \<Rightarrow>
                  if watchId = sessionWatchId (conns s ! zk)
                  then Panic ''Session event channel buffer is full''
                  else Panic ''Watch event channel buffer is full''
              | Done (Some c') \<Rightarrow>
                  let s1 = s\<lparr>chans := list_update (chans s) ch c'\<rparr>
                  in if watchId \<noteq> sessionWatchId (conns s1 ! zk) then
                       close_chan ch (delete_watch zk watchId s1)
                     else Done s1)"

text \<open>\<^verbatim>\<open>func runWatchLoop()\<close> and \<^verbatim>\<open>func stopWatchLoop()\<close>\<close>

definition runWatchLoop :: "process \<Rightarrow> process" where
  "runWatchLoop s =
     (let s1 = (if watchLoopCounter s = 0 then s\<lparr>watchLoopRunning := True\<rparr> else s)
      in s1\<lparr>watchLoopCounter := watchLoopCounter s1 + 1\<rparr>)"

definition stopWatchLoop :: "process \<Rightarrow> process" where
  "stopWatchLoop s =
     (let s1 = s\<lparr>watchLoopCounter := watchLoopCounter s - 1\<rparr>
      in if watchLoopCounter s1 = 0 then s1\<lparr>watchLoopCounter := watchLoopCounter s1 + 1\<rparr>
         else s1)"


subsection \<open>The ZooKeeper C client\<close>

text \<open>
  The C library is outside the repository. Each call the Go code makes is a field of
  \<open>runtime\<close>: it takes the arguments the Go code passes (the handle, the path, the
  watch context when a watcher is given, and so on) and the state \<open>'w\<close> of everything
  outside the Go process, and returns what the Go code reads back (the status
  \<^verbatim>\<open>rc\<close>, the errno \<^verbatim>\<open>cerr\<close>, the output buffers) with the new outside state. The
  theorems hold for every runtime.
\<close>

record 'w runtime =
  zookeeper_init ::
    "string \<Rightarrow> 32 word \<Rightarrow> uintptr \<Rightarrow> 'w \<Rightarrow> (zhandle option \<times> os_error option) \<times> 'w"
  zookeeper_close :: "zhandle option \<Rightarrow> 'w \<Rightarrow> (Error \<times> os_error option) \<times> 'w"
  zoo_wget ::
    "zhandle option \<Rightarrow> string \<Rightarrow> uintptr option \<Rightarrow> 'w
       \<Rightarrow> (Error \<times> os_error option \<times> string \<times> Stat) \<times> 'w"
  zoo_wget_children2 ::
    "zhandle option \<Rightarrow> string \<Rightarrow> uintptr option \<Rightarrow> 'w
       \<Rightarrow> (Error \<times> os_error option \<times> string list \<times> Stat) \<times> 'w"
  zoo_wexists ::
    "zhandle option \<Rightarrow> string \<Rightarrow> uintptr option \<Rightarrow> 'w
       \<Rightarrow> (Error \<times> os_error option \<times> Stat) \<times> 'w"
  zoo_create ::
    "zhandle option \<Rightarrow> string \<Rightarrow> string \<Rightarrow> ACL list \<Rightarrow> int \<Rightarrow> 'w
       \<Rightarrow> (Error \<times> os_error option \<times> string) \<times> 'w"
  zoo_set2 ::
    "zhandle option \<Rightarrow> string \<Rightarrow> string \<Rightarrow> 32 word \<Rightarrow> 'w
       \<Rightarrow> (Error \<times> os_error option \<times> Stat) \<times> 'w"

subsection \<open>Session: dial and Close\<close>

text \<open>
  \<^verbatim>\<open>func dial(servers string, recvTimeoutNS int64, clientId *ClientId)\<close>. The resumption
  token only travels to the C call and is left out; the timeout is passed as
  \<^verbatim>\<open>C.int(recvTimeoutNS/1e6)\<close> (\<open>timeout_ms\<close>: Go's division truncates towards zero). The result is the new connection and its session
  channel, or the error.
\<close>

definition timeout_ms :: "64 word \<Rightarrow> 32 word" where
  "timeout_ms ns = word_of_int (sgn (sint ns) * (\<bar>sint ns\<bar> div 1000000))"

definition dial ::
  "'w runtime \<Rightarrow> string \<Rightarrow> 64 word \<Rightarrow> process \<Rightarrow> 'w
     \<Rightarrow> ((conn_ref \<times> chan_ref) option \<times> os_error option \<times> process \<times> 'w) outcome" where
  "dial rt servers recvTimeoutNS s w =
     (let zk = length (conns s);
          s0 = s\<lparr>conns := conns s @ [\<lparr>watchChannels = [], sessionWatchId = 0, handle = None\<rparr>]\<rparr>
      in case createWatch zk True s0 of
           Panic m \<Rightarrow> Panic m
         | Done (watchId, watchChannel, s1) \<Rightarrow>
             let s2 = s1\<lparr>conns := list_update (conns s1) zk
                          ((conns s1 ! zk)\<lparr>sessionWatchId := watchId\<rparr>)\<rparr>
             in case zookeeper_init rt servers (timeout_ms recvTimeoutNS) watchId w of
                  ((None, cerr), w1) \<Rightarrow>
                    (case closeAllWatches zk s2 of
                       Panic m \<Rightarrow> Panic m
                     | Done s3 \<Rightarrow> Done (None, zkError ZSYSTEMERROR cerr, s3, w1))
                | ((Some h, cerr), w1) \<Rightarrow>
                    let s3 = s2\<lparr>conns := list_update (conns s2) zk
                                 ((conns s2 ! zk)\<lparr>handle := Some h\<rparr>)\<rparr>
                    in Done (Some (zk, watchChannel), None, runWatchLoop s3, w1))"

text \<open>\<^verbatim>\<open>func (zk *Conn) Close() os.Error\<close>\<close>

definition Close ::
  "'w runtime \<Rightarrow> conn_ref \<Rightarrow> process \<Rightarrow> 'w \<Rightarrow> (os_error option \<times> process \<times> 'w) outcome" where
  "Close rt zk s w =
     (if \<not> zk < length (conns s) then Panic nil_deref
      else if handle (conns s ! zk) = None then Done (Some (Code ZCLOSING), s, w)
      else case zookeeper_close rt (handle (conns s ! zk)) w of
        ((rc, cerr), w1) \<Rightarrow>
          (case closeAllWatches zk s of
             Panic m \<Rightarrow> Panic m
           | Done s1 \<Rightarrow>
               let s2 = stopWatchLoop s1;
                   s3 = s2\<lparr>conns := list_update (conns s2) zk ((conns s2 ! zk)\<lparr>handle := None\<rparr>)\<rparr>
               in Done (zkError rc cerr, s3, w1)))"

subsection \<open>Node operations\<close>

text \<open>
  The operations without a watch read only \<^verbatim>\<open>zk.handle\<close>; they take the \<^verbatim>\<open>Conn\<close>
  value. A nil \<^verbatim>\<open>*Stat\<close> is \<open>None\<close>.

  \<^verbatim>\<open>func (zk *Conn) Get(path string) (data string, stat *Stat, err os.Error)\<close>
\<close>

definition Get ::
  "'w runtime \<Rightarrow> Conn \<Rightarrow> string \<Rightarrow> 'w \<Rightarrow> (string \<times> Stat option \<times> os_error option) \<times> 'w" where
  "Get rt zk path w =
     (case zoo_wget rt (handle zk) path None w of
        ((rc, cerr, cbuffer, cstat), w1) \<Rightarrow>
          if rc \<noteq> ZOK then (([], None, zkError rc cerr), w1)
          else ((cbuffer, Some cstat, None), w1))"

text \<open>
  \<^verbatim>\<open>func (zk *Conn) GetW(path string) (data string, stat *Stat, watch <-chan Event,
  err os.Error)\<close>. A nil channel is \<open>None\<close>.
\<close>

definition GetW ::
  "'w runtime \<Rightarrow> conn_ref \<Rightarrow> string \<Rightarrow> process \<Rightarrow> 'w
     \<Rightarrow> ((string \<times> Stat option \<times> chan_ref option \<times> os_error option) \<times> process \<times> 'w) outcome"
  where
  "GetW rt zk path s w =
     (case createWatch zk True s of
        Panic m \<Rightarrow> Panic m
      | Done (watchId, watchChannel, s1) \<Rightarrow>
          (case zoo_wget rt (handle (conns s1 ! zk)) path (Some watchId) w of
             ((rc, cerr, cbuffer, cstat), w1) \<Rightarrow>
               if rc \<noteq> ZOK then
                 (case forgetWatch zk watchId s1 of
                    Panic m \<Rightarrow> Panic m
                  | Done s2 \<Rightarrow> Done (([], None, None, zkError rc cerr), s2, w1))
               else Done ((cbuffer, Some cstat, Some watchChannel, None), s1, w1)))"

text \<open>
  \<^verbatim>\<open>func (zk *Conn) Children(path string) (children []string, stat *Stat, err os.Error)\<close>.
  The C vector is the list of names it holds; a nil slice is the empty list.
\<close>

definition Children ::
  "'w runtime \<Rightarrow> Conn \<Rightarrow> string \<Rightarrow> 'w
     \<Rightarrow> (string list \<times> Stat option \<times> os_error option) \<times> 'w" where
  "Children rt zk path w =
     (case zoo_wget_children2 rt (handle zk) path None w of
        ((rc, cerr, cvector, cstat), w1) \<Rightarrow>
          let children = (if length cvector \<noteq> 0 then cvector else [])
          in if rc = ZOK then ((children, Some cstat, None), w1)
             else ((children, None, zkError rc cerr), w1))"

text \<open>\<^verbatim>\<open>func (zk *Conn) ChildrenW(path string)\<close>\<close>

definition ChildrenW ::
  "'w runtime \<Rightarrow> conn_ref \<Rightarrow> string \<Rightarrow> process \<Rightarrow> 'w
     \<Rightarrow> ((string list \<times> Stat option \<times> chan_ref option \<times> os_error option) \<times> process \<times> 'w)
          outcome" where
  "ChildrenW rt zk path s w =
     (case createWatch zk True s of
        Panic m \<Rightarrow> Panic m
      | Done (watchId, watchChannel, s1) \<Rightarrow>
          (case zoo_wget_children2 rt (handle (conns s1 ! zk)) path (Some watchId) w of
             ((rc, cerr, cvector, cstat), w1) \<Rightarrow>
               let children = (if length cvector \<noteq> 0 then cvector else [])
               in if rc = ZOK then Done ((children, Some cstat, Some watchChannel, None), s1, w1)
                  else (case forgetWatch zk watchId s1 of
                          Panic m \<Rightarrow> Panic m
                        | Done s2 \<Rightarrow> Done ((children, None, None, zkError rc cerr), s2, w1))))"

text \<open>
  \<^verbatim>\<open>func (zk *Conn) Exists(path string) (stat *Stat, err os.Error)\<close>. The C call is
  given \<^verbatim>\<open>&stat.c\<close>, where \<^verbatim>\<open>stat\<close> is the named result and still nil, not
  \<^verbatim>\<open>&cstat.c\<close>. Go releases of the time of this code (\<^verbatim>\<open>os.Error\<close>, deletion by
  \<^verbatim>\<open>m[k] = nil, false\<close>) compute that address without a check, so the C call gets a
  null pointer and writes no stat; later releases panic at this point. \<open>nil_checked\<close>
  selects the second behaviour. In both, what the C call would have stored never reaches
  \<^verbatim>\<open>cstat\<close>, which stays zeroed.
\<close>

definition Exists ::
  "bool \<Rightarrow> 'w runtime \<Rightarrow> Conn \<Rightarrow> string \<Rightarrow> 'w
     \<Rightarrow> ((Stat option \<times> os_error option) \<times> 'w) outcome" where
  "Exists nil_checked rt zk path w =
     (let cstat = zero_Stat
      in if nil_checked then Panic nil_deref
         else case zoo_wexists rt (handle zk) path None w of
           ((rc, cerr, stat_out), w1) \<Rightarrow>
             if rc = ZOK then Done ((Some cstat, None), w1)
             else if rc \<noteq> ZNONODE then Done ((None, zkError rc cerr), w1)
             else Done ((None, None), w1))"

text \<open>
  \<^verbatim>\<open>func (zk *Conn) ExistsW(path string) (stat *Stat, watch <-chan Event, err os.Error)\<close>.
  Here the C call is given \<^verbatim>\<open>&cstat.c\<close>.
\<close>

definition ExistsW ::
  "'w runtime \<Rightarrow> conn_ref \<Rightarrow> string \<Rightarrow> process \<Rightarrow> 'w
     \<Rightarrow> ((Stat option \<times> chan_ref option \<times> os_error option) \<times> process \<times> 'w) outcome" where
  "ExistsW rt zk path s w =
     (case createWatch zk True s of
        Panic m \<Rightarrow> Panic m
      | Done (watchId, watchChannel, s1) \<Rightarrow>
          (case zoo_wexists rt (handle (conns s1 ! zk)) path (Some watchId) w of
             ((rc, cerr, cstat), w1) \<Rightarrow>
               if rc = ZOK then Done ((Some cstat, Some watchChannel, None), s1, w1)
               else if rc = ZNONODE then Done ((None, Some watchChannel, None), s1, w1)
               else (case forgetWatch zk watchId s1 of
                       Panic m \<Rightarrow> Panic m
                     | Done s2 \<Rightarrow> Done ((None, None, zkError rc cerr), s2, w1))))"

text \<open>
  \<^verbatim>\<open>func (zk *Conn) Create(path, value string, flags int, aclv []ACL)
  (pathCreated string, err os.Error)\<close>
\<close>

definition Create ::
  "'w runtime \<Rightarrow> Conn \<Rightarrow> string \<Rightarrow> string \<Rightarrow> int \<Rightarrow> ACL list \<Rightarrow> 'w
     \<Rightarrow> (string \<times> os_error option) \<times> 'w" where
  "Create rt zk path val flags aclv w =
     (case zoo_create rt (handle zk) path val aclv flags w of
        ((rc, cerr, cpathCreated), w1) \<Rightarrow>
          if rc = ZOK then ((cpathCreated, None), w1)
          else (([], zkError rc cerr), w1))"

text \<open>
  \<^verbatim>\<open>func (zk *Conn) Set(path, value string, version int32) (stat *Stat, err os.Error)\<close>
\<close>

definition Set ::
  "'w runtime \<Rightarrow> Conn \<Rightarrow> string \<Rightarrow> string \<Rightarrow> 32 word \<Rightarrow> 'w
     \<Rightarrow> (Stat option \<times> os_error option) \<times> 'w" where
  "Set rt zk path val vers w =
     (case zoo_set2 rt (handle zk) path val vers w of
        ((rc, cerr, cstat), w1) \<Rightarrow>
          if rc = ZOK then ((Some cstat, None), w1)
          else ((None, zkError rc cerr), w1))"


subsection \<open>RetryChange\<close>

text \<open>
  \<^verbatim>\<open>type ChangeFunc func(oldValue string, oldStat *Stat) (newValue string, err os.Error)\<close>
\<close>

type_synonym ChangeFunc = "string \<Rightarrow> Stat option \<Rightarrow> string \<times> os_error option"

text \<open>
  \<^verbatim>\<open>func (zk *Conn) RetryChange(path string, flags int, acl []ACL, changeFunc ChangeFunc)
  os.Error\<close>. The \<^verbatim>\<open>for\<close> loop has no bound, so the result is an option: \<open>None\<close> when the
  loop never leaves. A \<^verbatim>\<open>continue\<close> and the end of the body are the recursive calls.
\<close>

partial_function (option) RetryChange ::
  "'w runtime \<Rightarrow> Conn \<Rightarrow> string \<Rightarrow> int \<Rightarrow> ACL list \<Rightarrow> ChangeFunc \<Rightarrow> 'w
     \<Rightarrow> (os_error option \<times> 'w) option" where
  "RetryChange rt zk path flags acl changeFunc w =
     (case Get rt zk path w of
        ((oldValue, oldStat, err), w1) \<Rightarrow>
          if err \<noteq> None \<and> err \<noteq> Some (Code ZNONODE) then Some (err, w1)
          else case changeFunc oldValue oldStat of
            (newValue, err) \<Rightarrow>
              if err \<noteq> None then Some (err, w1)
              else case oldStat of
                None \<Rightarrow>
                  (case Create rt zk path newValue flags acl w1 of
                     ((pathCreated, err), w2) \<Rightarrow>
                       if err = None \<or> err \<noteq> Some (Code ZNODEEXISTS) then Some (err, w2)
                       else RetryChange rt zk path flags acl changeFunc w2)
              | Some st \<Rightarrow>
                  if newValue = oldValue then Some (None, w1)
                  else case Set rt zk path newValue (Version st) w1 of
                    ((stat, err), w2) \<Rightarrow>
                      if err = None
                         \<or> (err \<noteq> Some (Code ZBADVERSION) \<and> err \<noteq> Some (Code ZNONODE))
                      then Some (None, w2)
                      else RetryChange rt zk path flags acl changeFunc w2)"


declare RetryChange.simps [code]

subsection \<open>Concrete inputs\<close>

text \<open>
  A runtime for the concrete cases below: the outside state counts the calls made so
  far, and the status of a call is a function of that count.
\<close>

definition demo_stat :: Stat where
  "demo_stat = zero_Stat\<lparr>version := 3, dataLength := 3\<rparr>"

definition demo_rt :: "(nat \<Rightarrow> Error) \<Rightarrow> nat runtime" where
  "demo_rt rcs =
     \<lparr>zookeeper_init = (\<lambda>servers t ctx w. ((Some 1, None), Suc w)),
      zookeeper_close = (\<lambda>h w. ((rcs w, None), Suc w)),
      zoo_wget = (\<lambda>h p ctx w. ((rcs w, None, ''one'', demo_stat), Suc w)),
      zoo_wget_children2 = (\<lambda>h p ctx w. ((rcs w, None, [''zookeeper''], demo_stat), Suc w)),
      zoo_wexists = (\<lambda>h p ctx w. ((rcs w, None, demo_stat), Suc w)),
      zoo_create = (\<lambda>h p v a f w. ((rcs w, None, p), Suc w)),
      zoo_set2 = (\<lambda>h p v ver w. ((rcs w, None, demo_stat), Suc w))\<rparr>"

text \<open>
  The process after \<^verbatim>\<open>Dial\<close> and one \<^verbatim>\<open>GetW\<close>: connection 0 with the session watch
  (id 0, channel 0) and a pending watch (id 1, channel 1).
\<close>

definition demo_conn :: Conn where
  "demo_conn = \<lparr>watchChannels = [(0, 0), (1, 1)], sessionWatchId = 0, handle = Some 1\<rparr>"

definition demo_process :: process where
  "demo_process =
     \<lparr>conns = [demo_conn], chans = [new_chan 32, new_chan 32],
      watchConns = [(0, 0), (1, 0)], watchCounter = 2, watchLoopCounter = 1,
      watchLoopRunning = True\<rparr>"

definition demo_changed :: Event where
  "demo_changed = \<lparr>Type = EVENT_CHANGED, Path = ''/test'', State = STATE_CONNECTED\<rparr>"

text \<open>The process after \<^verbatim>\<open>Dial\<close> alone, from which \<open>demo_process\<close> comes by a GetW.\<close>

definition demo_dialed :: process where
  "demo_dialed =
     \<lparr>conns = [\<lparr>watchChannels = [(0, 0)], sessionWatchId = 0, handle = Some 1\<rparr>],
      chans = [new_chan 32], watchConns = [(0, 0)], watchCounter = 1, watchLoopCounter = 1,
      watchLoopRunning = True\<rparr>"

text \<open>\<open>demo_process\<close> with one more pending watch (id 2, channel 2).\<close>

definition demo_pending3 :: process where
  "demo_pending3 =
     \<lparr>conns = [demo_conn\<lparr>watchChannels := [(0, 0), (1, 1), (2, 2)]\<rparr>],
      chans = [new_chan 32, new_chan 32, new_chan 32],
      watchConns = [(0, 0), (1, 0), (2, 0)], watchCounter = 3, watchLoopCounter = 1,
      watchLoopRunning = True\<rparr>"

text \<open>A change function that always proposes the value "two".\<close>

definition demo_change :: ChangeFunc where
  "demo_change oldValue oldStat = (''two'', None)"

definition demo_connecting :: Event where
  "demo_connecting = \<lparr>Type = EVENT_SESSION, Path = [], State = STATE_CONNECTING\<rparr>"

definition demo_expired :: Event where
  "demo_expired = \<lparr>Type = EVENT_SESSION, Path = [], State = STATE_EXPIRED_SESSION\<rparr>"

text \<open>The process \<open>demo_process\<close> after the watch with id 1 has fired.\<close>

definition demo_delivered :: process where
  "demo_delivered =
     \<lparr>conns = [demo_conn\<lparr>watchChannels := [(0, 0)]\<rparr>],
      chans = [new_chan 32,
               (new_chan 32)\<lparr>ch_buf := [demo_changed], ch_sent := 1, ch_closed := True\<rparr>],
      watchConns = [(0, 0)], watchCounter = 2, watchLoopCounter = 1,
      watchLoopRunning = True\<rparr>"

subsection \<open>Sequences of registry calls\<close>

text \<open>
  The registry functions as the package calls them, in any number and order. A run
  returns the ids that its createWatch calls returned, in that order.
\<close>

datatype reg_call =
    CreateWatch conn_ref bool
  | ForgetWatch conn_ref uintptr
  | CloseAllWatches conn_ref
  | SendEvent uintptr Event

fun reg_run :: "reg_call list \<Rightarrow> process \<Rightarrow> (uintptr list \<times> process) outcome" where
  "reg_run [] s = Done ([], s)"
| "reg_run (CreateWatch zk session # cs) s =
     (case createWatch zk session s of
        Panic m \<Rightarrow> Panic m
      | Done (watchId, watchChannel, s1) \<Rightarrow>
          (case reg_run cs s1 of
             Panic m \<Rightarrow> Panic m
           | Done (ids, s') \<Rightarrow> Done (watchId # ids, s')))"
| "reg_run (ForgetWatch zk watchId # cs) s =
     (case forgetWatch zk watchId s of Panic m \<Rightarrow> Panic m | Done s1 \<Rightarrow> reg_run cs s1)"
| "reg_run (CloseAllWatches zk # cs) s =
     (case closeAllWatches zk s of Panic m \<Rightarrow> Panic m | Done s1 \<Rightarrow> reg_run cs s1)"
| "reg_run (SendEvent watchId event # cs) s =
     (case sendEvent watchId event s of Panic m \<Rightarrow> Panic m | Done s1 \<Rightarrow> reg_run cs s1)"

subsection \<open>Sequences of calls on the package\<close>

text \<open>
  The consumer's receive on a stream, as a step of the process: the event, if there is
  one, leaves the buffer; a receive that would block leaves everything as it is.
\<close>

definition receive :: "chan_ref \<Rightarrow> process \<Rightarrow> process" where
  "receive ch s =
     (if ch < length (chans s) then
        (case recv (chans s ! ch) of
           None \<Rightarrow> s
         | Some (e, ok, c') \<Rightarrow> s\<lparr>chans := list_update (chans s) ch c'\<rparr>)
      else s)"

text \<open>
  What happens to the process, one call after the other: the exported operations that
  touch the registry, the dispatcher handing one notification to sendEvent, a consumer
  receiving from a stream, and any change of the outside state (which includes the node
  operations without a watch).
\<close>

datatype 'w call =
    Dial string "64 word"
  | CallClose conn_ref
  | CallGetW conn_ref string
  | CallChildrenW conn_ref string
  | CallExistsW conn_ref string
  | Dispatch uintptr Event
  | Receive chan_ref
  | Outside "'w \<Rightarrow> 'w"

fun step :: "'w runtime \<Rightarrow> 'w call \<Rightarrow> process \<Rightarrow> 'w \<Rightarrow> (process \<times> 'w) outcome" where
  "step rt (Dial servers recvTimeoutNS) s w =
     (case dial rt servers recvTimeoutNS s w of
        Panic m \<Rightarrow> Panic m | Done (r, err, s', w') \<Rightarrow> Done (s', w'))"
| "step rt (CallClose zk) s w =
     (case Close rt zk s w of Panic m \<Rightarrow> Panic m | Done (err, s', w') \<Rightarrow> Done (s', w'))"
| "step rt (CallGetW zk path) s w =
     (case GetW rt zk path s w of Panic m \<Rightarrow> Panic m | Done (r, s', w') \<Rightarrow> Done (s', w'))"
| "step rt (CallChildrenW zk path) s w =
     (case ChildrenW rt zk path s w of Panic m \<Rightarrow> Panic m | Done (r, s', w') \<Rightarrow> Done (s', w'))"
| "step rt (CallExistsW zk path) s w =
     (case ExistsW rt zk path s w of Panic m \<Rightarrow> Panic m | Done (r, s', w') \<Rightarrow> Done (s', w'))"
| "step rt (Dispatch watchId event) s w =
     (case sendEvent watchId event s of Panic m \<Rightarrow> Panic m | Done s' \<Rightarrow> Done (s', w))"
| "step rt (Receive ch) s w = Done (receive ch s, w)"
| "step rt (Outside f) s w = Done (s, f w)"

fun run :: "'w runtime \<Rightarrow> 'w call list \<Rightarrow> process \<Rightarrow> 'w \<Rightarrow> (process \<times> 'w) outcome" where
  "run rt [] s w = Done (s, w)"
| "run rt (c # cs) s w =
     (case step rt c s w of Panic m \<Rightarrow> Panic m | Done (s1, w1) \<Rightarrow> run rt cs s1 w1)"

text \<open>
  \<^verbatim>\<open>func _watchLoop()\<close> on the notifications it is given: each is handed to sendEvent.
\<close>

fun watchLoop :: "(uintptr \<times> Event) list \<Rightarrow> process \<Rightarrow> process outcome" where
  "watchLoop [] s = Done s"
| "watchLoop ((watchId, event) # ns) s =
     (case sendEvent watchId event s of Panic m \<Rightarrow> Panic m | Done s1 \<Rightarrow> watchLoop ns s1)"

subsection \<open>More concrete inputs\<close>

text \<open>
  \<open>demo_process\<close> with the watch counter at its largest value, and the process two
  createWatch calls later.
\<close>

definition wrap_process :: process where
  "wrap_process = demo_process\<lparr>watchCounter := - 1\<rparr>"

definition wrap_created :: process where
  "wrap_created =
     \<lparr>conns = [demo_conn\<lparr>watchChannels := [(0, 3), (1, 1), (- 1, 2)]\<rparr>],
      chans = [new_chan 32, new_chan 32, new_chan 32, new_chan 32],
      watchConns = [(0, 0), (1, 0), (- 1, 0)], watchCounter = 1, watchLoopCounter = 1,
      watchLoopRunning = True\<rparr>"

text \<open>\<open>demo_delivered\<close> after the consumer has taken the event from channel 1.\<close>

definition demo_drained :: process where
  "demo_drained = demo_delivered\<lparr>chans :=
      [new_chan 32, (new_chan 32)\<lparr>ch_buf := [], ch_sent := 1, ch_closed := True\<rparr>]\<rparr>"

text \<open>
  \<open>demo_process\<close> after the watch counter has wrapped around to 0, the id of the
  session watch.
\<close>

definition reused_process :: process where
  "reused_process = demo_process\<lparr>watchCounter := 0\<rparr>"

subsection \<open>Predicates used in the statements\<close>

text \<open>No event waiting in any channel has the state \<^verbatim>\<open>STATE_CLOSED\<close>.\<close>

definition no_closed_buffered :: "process \<Rightarrow> bool" where
  "no_closed_buffered s =
     list_all (\<lambda>c. list_all (\<lambda>e. State e \<noteq> STATE_CLOSED) (ch_buf c)) (chans s)"

text \<open>
  The path condition of sendEvent up to its \<^verbatim>\<open>select\<close>: the event is not the closed
  sentinel, the id is registered for connection \<open>zk\<close>, the session filter lets the
  event through, and the id's channel \<open>ch\<close> is there and open.
\<close>

definition reaches_send ::
  "uintptr \<Rightarrow> Event \<Rightarrow> process \<Rightarrow> conn_ref \<Rightarrow> chan_ref \<Rightarrow> bool" where
  "reaches_send watchId event s zk ch =
     (State event \<noteq> STATE_CLOSED \<and> map_of (watchConns s) watchId = Some zk
      \<and> zk < length (conns s)
      \<and> \<not> (Type event = EVENT_SESSION \<and> watchId \<noteq> sessionWatchId (conns s ! zk)
             \<and> State event \<noteq> STATE_EXPIRED_SESSION \<and> State event \<noteq> STATE_AUTH_FAILED)
      \<and> map_of (watchChannels (conns s ! zk)) watchId = Some ch
      \<and> ch < length (chans s) \<and> \<not> ch_closed (chans s ! ch))"

text \<open>The channel after it has accepted the event.\<close>

definition accepted :: "chan \<Rightarrow> Event \<Rightarrow> chan" where
  "accepted c e = c\<lparr>ch_buf := ch_buf c @ [e], ch_sent := Suc (ch_sent c)\<rparr>"

text \<open>\<^verbatim>\<open>zk.watchChannels\<close> of the connection that \<open>zk\<close> refers to.\<close>

definition wc :: "process \<Rightarrow> conn_ref \<Rightarrow> (uintptr \<times> chan_ref) list" where
  "wc s zk = watchChannels (conns s ! zk)"

text \<open>
  The registry is well formed: the keys of each map are distinct (a Go map holds a key
  once), every channel registered for a connection is in the store and open, and no
  channel is registered twice, within a connection or in two connections.
\<close>

definition wf_process :: "process \<Rightarrow> bool" where
  "wf_process s =
     (distinct (map fst (watchConns s))
      \<and> (\<forall>zk<length (conns s).
            distinct (map fst (wc s zk)) \<and> distinct (map snd (wc s zk))
            \<and> (\<forall>ch\<in>snd ` set (wc s zk). ch < length (chans s) \<and> \<not> ch_closed (chans s ! ch)))
      \<and> (\<forall>zk1<length (conns s). \<forall>zk2<length (conns s).
            zk1 \<noteq> zk2 \<longrightarrow> snd ` set (wc s zk1) \<inter> snd ` set (wc s zk2) = {}))"

text \<open>The channel is the value of some id in some connection's \<^verbatim>\<open>watchChannels\<close>.\<close>

definition registered :: "chan_ref \<Rightarrow> process \<Rightarrow> bool" where
  "registered ch s = (\<exists>zk<length (conns s). ch \<in> snd ` set (wc s zk))"

text \<open>
  The state \<open>s'\<close> that the loop of closeAllWatches leaves when it starts in \<open>s\<close> and
  goes through the entries \<open>al\<close>: their ids are gone from both maps, their channels are
  closed, nothing else has changed.
\<close>

definition closed_all ::
  "conn_ref \<Rightarrow> (uintptr \<times> chan_ref) list \<Rightarrow> process \<Rightarrow> process \<Rightarrow> bool" where
  "closed_all zk al s s' =
     (conns s' = list_update (conns s) zk
         ((conns s ! zk)\<lparr>watchChannels := filter (\<lambda>p. fst p \<notin> fst ` set al) (wc s zk)\<rparr>)
      \<and> watchConns s' = filter (\<lambda>p. fst p \<notin> fst ` set al) (watchConns s)
      \<and> chans s' = map (\<lambda>c. if c \<in> snd ` set al then (chans s ! c)\<lparr>ch_closed := True\<rparr>
                               else chans s ! c) [0..<length (chans s)]
      \<and> watchCounter s' = watchCounter s \<and> watchLoopCounter s' = watchLoopCounter s
      \<and> watchLoopRunning s' = watchLoopRunning s)"

text \<open>
  The channel is registered for some connection under an id that is not that
  connection's session-watch id: it is the stream of a pending one-shot watch.
\<close>

definition pending_oneshot :: "chan_ref \<Rightarrow> process \<Rightarrow> bool" where
  "pending_oneshot ch s =
     (\<exists>zk<length (conns s). \<exists>w. (w, ch) \<in> set (wc s zk) \<and> w \<noteq> sessionWatchId (conns s ! zk))"

text \<open>
  The invariant of a one-shot stream that had accepted \<open>n\<close> sends when it was
  pending: while it is registered it is still pending with \<open>n\<close> sends; once it is not
  registered it has accepted at most one more, and if it has, it is closed.
\<close>

definition oneshot_inv :: "nat \<Rightarrow> chan_ref \<Rightarrow> process \<Rightarrow> bool" where
  "oneshot_inv n ch s =
     (ch < length (chans s) \<and>
      (if registered ch s then pending_oneshot ch s \<and> ch_sent (chans s ! ch) = n
       else ch_sent (chans s ! ch) \<le> Suc n
            \<and> (ch_sent (chans s ! ch) = Suc n \<longrightarrow> ch_closed (chans s ! ch))))"

text \<open>
  From \<open>s\<close> to \<open>s'\<close> nothing has happened to channel \<open>ch\<close> but, possibly, its
  retirement: it has accepted no send, it is not reopened, and where it is registered in
  \<open>s'\<close> it was so in \<open>s\<close>, for a connection with the same session-watch id.
\<close>

definition frame_for :: "chan_ref \<Rightarrow> process \<Rightarrow> process \<Rightarrow> bool" where
  "frame_for ch s s' =
     (length (chans s) \<le> length (chans s')
      \<and> (\<forall>z<length (conns s'). \<forall>p\<in>set (wc s' z). snd p = ch \<longrightarrow>
            z < length (conns s) \<and> p \<in> set (wc s z)
            \<and> sessionWatchId (conns s' ! z) = sessionWatchId (conns s ! z))
      \<and> ch_sent (chans s' ! ch) = ch_sent (chans s ! ch)
      \<and> (ch_closed (chans s ! ch) \<longrightarrow> ch_closed (chans s' ! ch)))"

text \<open>A step that keeps the registry well formed and is a frame for every channel.\<close>

definition stable_step :: "process \<Rightarrow> process \<Rightarrow> bool" where
  "stable_step s s' = (wf_process s' \<and> (\<forall>ch<length (chans s). frame_for ch s s'))"

text \<open>
  The session watch of connection \<open>zk\<close> is registered in both maps, with the open
  channel \<open>ch\<close>.
\<close>

definition session_pending :: "conn_ref \<Rightarrow> chan_ref \<Rightarrow> process \<Rightarrow> bool" where
  "session_pending zk ch s =
     (zk < length (conns s)
      \<and> map_of (watchConns s) (sessionWatchId (conns s ! zk)) = Some zk
      \<and> map_of (wc s zk) (sessionWatchId (conns s ! zk)) = Some ch
      \<and> ch < length (chans s) \<and> \<not> ch_closed (chans s ! ch))"

text \<open>
  Every id in \<^verbatim>\<open>watchConns\<close> is below the counter, and every id in a connection's
  \<^verbatim>\<open>watchChannels\<close> is in \<^verbatim>\<open>watchConns\<close> for that connection.
\<close>

definition ids_owned :: "process \<Rightarrow> bool" where
  "ids_owned s =
     ((\<forall>p\<in>set (watchConns s). fst p < watchCounter s)
      \<and> (\<forall>zk<length (conns s). \<forall>p\<in>set (wc s zk). map_of (watchConns s) (fst p) = Some zk))"

text \<open>Every connection's session-watch id is below the counter.\<close>

definition sids_below :: "process \<Rightarrow> bool" where
  "sids_below s = (\<forall>zk<length (conns s). sessionWatchId (conns s ! zk) < watchCounter s)"

text \<open>
  The counter has not wrapped around: every id in use has been allocated from a smaller
  counter value than the present one.
\<close>

definition ids_allocated :: "process \<Rightarrow> bool" where
  "ids_allocated s = (ids_owned s \<and> sids_below s)"

section \<open>Properties\<close>

lemmas event_consts =
  EVENT_CREATED_def EVENT_DELETED_def EVENT_CHANGED_def EVENT_CHILD_def
  EVENT_SESSION_def EVENT_NOTWATCHING_def EVENT_CLOSED_def
  STATE_EXPIRED_SESSION_def STATE_AUTH_FAILED_def STATE_CONNECTING_def
  STATE_ASSOCIATING_def STATE_CONNECTED_def STATE_CLOSED_def

subsection \<open>Basic facts about the registry operations\<close>

lemma set_watchChannels_fields [simp]:
  "conns (set_watchChannels zk m s) =
     list_update (conns s) zk ((conns s ! zk)\<lparr>watchChannels := m\<rparr>)"
  "chans (set_watchChannels zk m s) = chans s"
  "watchConns (set_watchChannels zk m s) = watchConns s"
  "watchCounter (set_watchChannels zk m s) = watchCounter s"
  by (simp_all add: set_watchChannels_def)

lemma delete_watch_fields [simp]:
  "chans (delete_watch zk w s) = chans s"
  "watchConns (delete_watch zk w s) = AList.delete w (watchConns s)"
  "watchCounter (delete_watch zk w s) = watchCounter s"
  "conns (delete_watch zk w s) =
     list_update (conns s) zk
       ((conns s ! zk)\<lparr>watchChannels := AList.delete w (watchChannels (conns s ! zk))\<rparr>)"
  by (simp_all add: delete_watch_def)

lemma delete_watch_loop_fields [simp]:
  "watchLoopCounter (delete_watch zk w s) = watchLoopCounter s"
  "watchLoopRunning (delete_watch zk w s) = watchLoopRunning s"
  by (simp_all add: delete_watch_def set_watchChannels_def)

lemma close_chan_Done:
  "close_chan ch s = Done s' \<Longrightarrow>
     ch < length (chans s) \<and> \<not> ch_closed (chans s ! ch)
     \<and> s' = s\<lparr>chans := list_update (chans s) ch ((chans s ! ch)\<lparr>ch_closed := True\<rparr>)\<rparr>"
  by (auto simp: close_chan_def split: if_splits)

lemma try_send_Some:
  "try_send c e = Done (Some c') \<Longrightarrow>
     \<not> ch_closed c \<and> length (ch_buf c) < ch_cap c \<and> c' = accepted c e"
  by (auto simp: try_send_def accepted_def split: if_splits)

lemma createWatch_Done:
  "zk < length (conns s) \<Longrightarrow>
   createWatch zk session s =
     Done (watchCounter s, length (chans s),
       s\<lparr>chans := chans s @ [new_chan (if session then 32 else 1)],
         watchCounter := watchCounter s + 1,
         conns := list_update (conns s) zk
            ((conns s ! zk)\<lparr>watchChannels :=
                AList.update (watchCounter s) (length (chans s)) (watchChannels (conns s ! zk))\<rparr>),
         watchConns := AList.update (watchCounter s) zk (watchConns s)\<rparr>)"
  by (simp add: createWatch_def Let_def set_watchChannels_def)

lemma createWatch_Panic:
  "\<not> zk < length (conns s) \<Longrightarrow> createWatch zk session s = Panic nil_deref"
  by (simp add: createWatch_def Let_def)

subsection \<open>What sendEvent does\<close>

lemma sendEvent_closed_panics:
  "State e = STATE_CLOSED \<Longrightarrow> sendEvent w e s = Panic ''Attempted to send a CLOSED event''"
  by (simp add: sendEvent_def)

lemma sendEvent_absent:
  "State e \<noteq> STATE_CLOSED \<Longrightarrow> map_of (watchConns s) w = None \<Longrightarrow> sendEvent w e s = Done s"
  by (simp add: sendEvent_def)

lemma sendEvent_filtered:
  "State e \<noteq> STATE_CLOSED \<Longrightarrow> map_of (watchConns s) w = Some zk \<Longrightarrow> zk < length (conns s)
   \<Longrightarrow> Type e = EVENT_SESSION \<Longrightarrow> w \<noteq> sessionWatchId (conns s ! zk)
   \<Longrightarrow> State e \<noteq> STATE_EXPIRED_SESSION \<Longrightarrow> State e \<noteq> STATE_AUTH_FAILED
   \<Longrightarrow> sendEvent w e s = Done s"
  by (simp add: sendEvent_def)

lemma sendEvent_oneshot_delivered:
  assumes "reaches_send w e s zk ch" "w \<noteq> sessionWatchId (conns s ! zk)"
    "length (ch_buf (chans s ! ch)) < ch_cap (chans s ! ch)"
  shows "sendEvent w e s =
     Done ((delete_watch zk w s)\<lparr>chans := list_update (chans s) ch
        ((accepted (chans s ! ch) e)\<lparr>ch_closed := True\<rparr>)\<rparr>)"
  using assms
  by (auto simp: reaches_send_def sendEvent_def try_send_def close_chan_def delete_watch_def
        set_watchChannels_def accepted_def)

lemma sendEvent_session_delivered:
  assumes "reaches_send w e s zk ch" "w = sessionWatchId (conns s ! zk)"
    "length (ch_buf (chans s ! ch)) < ch_cap (chans s ! ch)"
  shows "sendEvent w e s =
     Done (s\<lparr>chans := list_update (chans s) ch (accepted (chans s ! ch) e)\<rparr>)"
  using assms
  by (auto simp: reaches_send_def sendEvent_def try_send_def accepted_def)

lemma sendEvent_full_panics:
  assumes "reaches_send w e s zk ch" "\<not> length (ch_buf (chans s ! ch)) < ch_cap (chans s ! ch)"
  shows "sendEvent w e s =
     Panic (if w = sessionWatchId (conns s ! zk) then ''Session event channel buffer is full''
            else ''Watch event channel buffer is full'')"
  using assms
  by (auto simp: reaches_send_def sendEvent_def try_send_def)

text \<open>A sendEvent that returns has done nothing, or has made one send.\<close>

lemma sendEvent_Done_cases:
  assumes "sendEvent w e s = Done s'"
  shows "s' = s \<or>
    (\<exists>zk ch. reaches_send w e s zk ch
       \<and> length (ch_buf (chans s ! ch)) < ch_cap (chans s ! ch)
       \<and> s' = (if w \<noteq> sessionWatchId (conns s ! zk)
               then (delete_watch zk w s)\<lparr>chans := list_update (chans s) ch
                      ((accepted (chans s ! ch) e)\<lparr>ch_closed := True\<rparr>)\<rparr>
               else s\<lparr>chans := list_update (chans s) ch (accepted (chans s ! ch) e)\<rparr>))"
  using assms
  apply (simp add: sendEvent_def reaches_send_def split: if_splits option.splits outcome.splits)
   apply (auto simp: Let_def delete_watch_def set_watchChannels_def
             dest!: try_send_Some close_chan_Done split: if_splits)
  done

subsection \<open>The closed sentinel is never sent\<close>

lemma no_closed_buffered_update:
  assumes "no_closed_buffered s" "ch < length (chans s)" "State e \<noteq> STATE_CLOSED"
    "ch_buf c = ch_buf (chans s ! ch) @ [e]" "chans s' = list_update (chans s) ch c"
  shows "no_closed_buffered s'"
proof -
  have old: "\<forall>x\<in>set (chans s). \<forall>y\<in>set (ch_buf x). State y \<noteq> STATE_CLOSED"
    using assms(1) by (simp add: no_closed_buffered_def list_all_iff)
  have "chans s ! ch \<in> set (chans s)" using assms(2) by simp
  with old assms(3,4) have new: "\<forall>y\<in>set (ch_buf c). State y \<noteq> STATE_CLOSED" by auto
  have "set (chans s') \<subseteq> insert c (set (chans s))"
    unfolding assms(5) by (rule set_update_subset_insert)
  with old new show ?thesis
    by (auto simp: no_closed_buffered_def list_all_iff)
qed

lemma sendEvent_no_closed_buffered:
  assumes "sendEvent w e s = Done s'" "no_closed_buffered s"
  shows "no_closed_buffered s'"
proof -
  from sendEvent_Done_cases [OF assms(1)] show ?thesis
  proof (elim disjE exE conjE)
    assume "s' = s" with assms(2) show ?thesis by simp
  next
    fix zk ch
    assume r: "reaches_send w e s zk ch"
      and s': "s' = (if w \<noteq> sessionWatchId (conns s ! zk)
               then (delete_watch zk w s)\<lparr>chans := list_update (chans s) ch
                      ((accepted (chans s ! ch) e)\<lparr>ch_closed := True\<rparr>)\<rparr>
               else s\<lparr>chans := list_update (chans s) ch (accepted (chans s ! ch) e)\<rparr>)"
    from r have e: "State e \<noteq> STATE_CLOSED" and ch: "ch < length (chans s)"
      by (simp_all add: reaches_send_def)
    show ?thesis
    proof (cases "w \<noteq> sessionWatchId (conns s ! zk)")
      case True
      with s' have "chans s' = list_update (chans s) ch
          ((accepted (chans s ! ch) e)\<lparr>ch_closed := True\<rparr>)" by simp
      from no_closed_buffered_update [OF assms(2) ch e _ this] show ?thesis
        by (simp add: accepted_def)
    next
      case False
      with s' have "chans s' = list_update (chans s) ch (accepted (chans s ! ch) e)" by simp
      from no_closed_buffered_update [OF assms(2) ch e _ this] show ?thesis
        by (simp add: accepted_def)
    qed
  qed
qed

lemma recv_closed_state:
  "recv c = Some (e, ok, c') \<Longrightarrow> list_all (\<lambda>x. State x \<noteq> STATE_CLOSED) (ch_buf c)
     \<Longrightarrow> State e = STATE_CLOSED \<Longrightarrow> \<not> ok \<and> ch_closed c \<and> e = zero_Event"
  by (auto simp: recv_def split: list.splits if_splits)

text \<open>
  C9. sendEvent is never made to deliver an event whose State is \<^verbatim>\<open>STATE_CLOSED\<close>:
  such a call panics at once with "Attempted to send a CLOSED event". So a sendEvent that
  returns leaves no such event waiting in any channel when there was none before, and a
  consumer that receives an event with that state, from a channel that holds none, has
  received the zeroed event of a closed channel (\<^verbatim>\<open>ok\<close> is false).
\<close>

theorem sendEvent_CLOSED_never_sent:
  "sendEvent watchId (event\<lparr>State := STATE_CLOSED\<rparr>) s = Panic ''Attempted to send a CLOSED event''
   \<and> (sendEvent watchId event s = Done s' \<longrightarrow> no_closed_buffered s \<longrightarrow> no_closed_buffered s')
   \<and> (recv c = Some (e, ok, c') \<longrightarrow> list_all (\<lambda>x. State x \<noteq> STATE_CLOSED) (ch_buf c)
        \<longrightarrow> State e = STATE_CLOSED \<longrightarrow> \<not> ok \<and> ch_closed c \<and> e = zero_Event)"
proof (intro conjI impI)
  show "sendEvent watchId (event\<lparr>State := STATE_CLOSED\<rparr>) s
          = Panic ''Attempted to send a CLOSED event''"
    by (simp add: sendEvent_closed_panics)
next
  assume "sendEvent watchId event s = Done s'" "no_closed_buffered s"
  then show "no_closed_buffered s'" by (rule sendEvent_no_closed_buffered)
next
  assume r: "recv c = Some (e, ok, c')" "list_all (\<lambda>x. State x \<noteq> STATE_CLOSED) (ch_buf c)"
    "State e = STATE_CLOSED"
  from recv_closed_state [OF r] show "\<not> ok" "ch_closed c" "e = zero_Event" by simp_all
qed

lemma demo_sendEvent:
  "sendEvent 1 demo_changed demo_process = Done demo_delivered"
  by (simp add: sendEvent_def demo_changed_def demo_process_def demo_delivered_def demo_conn_def
      event_consts try_send_def close_chan_def delete_watch_def set_watchChannels_def new_chan_def)

theorem sendEvent_CLOSED_never_sent_witness:
  "sendEvent 1 demo_changed demo_process = Done demo_delivered
   \<and> no_closed_buffered demo_process \<and> no_closed_buffered demo_delivered
   \<and> recv ((new_chan 1)\<lparr>ch_closed := True\<rparr>) = Some (zero_Event, False, (new_chan 1)\<lparr>ch_closed := True\<rparr>)
   \<and> State zero_Event = STATE_CLOSED
   \<and> sendEvent 1 (demo_changed\<lparr>State := STATE_CLOSED\<rparr>) demo_process
       = Panic ''Attempted to send a CLOSED event''"
  using sendEvent_CLOSED_never_sent [where watchId = 1 and event = demo_changed
      and s = demo_process and s' = demo_delivered and c = "(new_chan 1)\<lparr>ch_closed := True\<rparr>"
      and e = zero_Event and ok = False and c' = "(new_chan 1)\<lparr>ch_closed := True\<rparr>"]
    demo_sendEvent
  by (simp add: no_closed_buffered_def demo_process_def new_chan_def recv_def zero_Event_def
      STATE_CLOSED_def)

subsection \<open>The session filter\<close>

text \<open>
  C4, as stated, fails for an event whose state is \<^verbatim>\<open>STATE_CLOSED\<close>: sendEvent
  panics before it looks the id up, also when the id is not registered.
\<close>

theorem sendEvent_drops_CLOSED_counterexample:
  "map_of (watchConns demo_process) 7 = None
   \<and> sendEvent 7 \<lparr>Type = EVENT_SESSION, Path = [], State = STATE_CLOSED\<rparr> demo_process
       = Panic ''Attempted to send a CLOSED event''
   \<and> sendEvent 7 \<lparr>Type = EVENT_SESSION, Path = [], State = STATE_CLOSED\<rparr> demo_process
       \<noteq> Done demo_process"
  by (simp add: sendEvent_def demo_process_def)

text \<open>
  C4, amended. For an event whose state is not \<^verbatim>\<open>STATE_CLOSED\<close>: if the watch id is
  absent from the registry, sendEvent returns and changes nothing; if the event is a
  session event and the id is registered but is not the session-watch id of its
  connection, then with a state other than expired-session and auth-failed sendEvent
  returns and changes nothing, any change it makes implies one of these two states, and
  with one of them (and room in the open channel) the event is put on the channel, which
  is closed and retired.
\<close>

theorem sendEvent_session_filter:
  assumes "State event \<noteq> STATE_CLOSED"
  shows "(map_of (watchConns s) watchId = None \<longrightarrow> sendEvent watchId event s = Done s)
   \<and> (map_of (watchConns s) watchId = Some zk \<and> zk < length (conns s)
        \<and> Type event = EVENT_SESSION \<and> watchId \<noteq> sessionWatchId (conns s ! zk) \<longrightarrow>
        (State event \<noteq> STATE_EXPIRED_SESSION \<and> State event \<noteq> STATE_AUTH_FAILED
           \<longrightarrow> sendEvent watchId event s = Done s)
      \<and> (sendEvent watchId event s = Done s' \<and> s' \<noteq> s
           \<longrightarrow> State event = STATE_EXPIRED_SESSION \<or> State event = STATE_AUTH_FAILED)
      \<and> ((State event = STATE_EXPIRED_SESSION \<or> State event = STATE_AUTH_FAILED)
           \<and> map_of (watchChannels (conns s ! zk)) watchId = Some ch \<and> ch < length (chans s)
           \<and> \<not> ch_closed (chans s ! ch) \<and> length (ch_buf (chans s ! ch)) < ch_cap (chans s ! ch)
           \<longrightarrow> sendEvent watchId event s =
                 Done ((delete_watch zk watchId s)\<lparr>chans := list_update (chans s) ch
                         ((accepted (chans s ! ch) event)\<lparr>ch_closed := True\<rparr>)\<rparr>)))"
proof (intro conjI impI)
  assume "map_of (watchConns s) watchId = None"
  with assms show "sendEvent watchId event s = Done s" by (rule sendEvent_absent)
next
  assume a: "map_of (watchConns s) watchId = Some zk \<and> zk < length (conns s)
        \<and> Type event = EVENT_SESSION \<and> watchId \<noteq> sessionWatchId (conns s ! zk)"
    and b: "State event \<noteq> STATE_EXPIRED_SESSION \<and> State event \<noteq> STATE_AUTH_FAILED"
  with assms show "sendEvent watchId event s = Done s" by (simp add: sendEvent_filtered)
next
  assume a: "map_of (watchConns s) watchId = Some zk \<and> zk < length (conns s)
        \<and> Type event = EVENT_SESSION \<and> watchId \<noteq> sessionWatchId (conns s ! zk)"
    and b: "sendEvent watchId event s = Done s' \<and> s' \<noteq> s"
  from b sendEvent_Done_cases [of watchId event s s']
  obtain zk' ch' where "reaches_send watchId event s zk' ch'" by blast
  with a show "State event = STATE_EXPIRED_SESSION \<or> State event = STATE_AUTH_FAILED"
    by (auto simp: reaches_send_def)
next
  assume a: "map_of (watchConns s) watchId = Some zk \<and> zk < length (conns s)
        \<and> Type event = EVENT_SESSION \<and> watchId \<noteq> sessionWatchId (conns s ! zk)"
    and b: "(State event = STATE_EXPIRED_SESSION \<or> State event = STATE_AUTH_FAILED)
           \<and> map_of (watchChannels (conns s ! zk)) watchId = Some ch \<and> ch < length (chans s)
           \<and> \<not> ch_closed (chans s ! ch) \<and> length (ch_buf (chans s ! ch)) < ch_cap (chans s ! ch)"
  from assms a b have "reaches_send watchId event s zk ch"
    by (auto simp: reaches_send_def)
  with a b show "sendEvent watchId event s =
                 Done ((delete_watch zk watchId s)\<lparr>chans := list_update (chans s) ch
                         ((accepted (chans s ! ch) event)\<lparr>ch_closed := True\<rparr>)\<rparr>)"
    by (simp add: sendEvent_oneshot_delivered)
qed

theorem sendEvent_session_filter_witness:
  "State demo_connecting \<noteq> STATE_CLOSED \<and> State demo_expired \<noteq> STATE_CLOSED
   \<and> map_of (watchConns demo_process) 7 = None
   \<and> sendEvent 7 demo_connecting demo_process = Done demo_process
   \<and> map_of (watchConns demo_process) 1 = Some 0
   \<and> 1 \<noteq> sessionWatchId (conns demo_process ! 0)
   \<and> sendEvent 1 demo_connecting demo_process = Done demo_process
   \<and> sendEvent 1 demo_expired demo_process =
        Done ((delete_watch 0 1 demo_process)\<lparr>chans := list_update (chans demo_process) 1
                ((accepted (chans demo_process ! 1) demo_expired)\<lparr>ch_closed := True\<rparr>)\<rparr>)"
  using sendEvent_session_filter [where event = demo_connecting and s = demo_process
      and watchId = 7 and zk = 0 and s' = demo_process and ch = 1]
    sendEvent_session_filter [where event = demo_connecting and s = demo_process
      and watchId = 1 and zk = 0 and s' = demo_process and ch = 1]
    sendEvent_session_filter [where event = demo_expired and s = demo_process
      and watchId = 1 and zk = 0 and s' = demo_process and ch = 1]
  by (simp add: demo_connecting_def demo_expired_def demo_process_def demo_conn_def
        new_chan_def event_consts)

subsection \<open>Watch-installing operations that fail\<close>










subsection \<open>RetryChange\<close>

text \<open>
  The Set branch of the loop: when the node exists and the new value differs, Set is
  called with the old stat's version; bad-version and no-such-node restart the loop, and
  every other outcome, success or error, ends it with nil.
\<close>

lemma RetryChange_set_branch:
  assumes "Get rt zk path w = ((oldValue, Some st, None), w1)"
    "changeFunc oldValue (Some st) = (newValue, None)" "newValue \<noteq> oldValue"
    "Set rt zk path newValue (Version st) w1 = ((stat, err), w2)"
  shows "RetryChange rt zk path flags acl changeFunc w =
     (if err = Some (Code ZBADVERSION) \<or> err = Some (Code ZNONODE)
      then RetryChange rt zk path flags acl changeFunc w2
      else Some (None, w2))"
  using assms by (subst RetryChange.simps) auto

text \<open>
  C1 at a failing input. The node exists with value "one", the change function proposes
  "two", and the version-checked Set (with the old stat's version) fails with
  \<^verbatim>\<open>ZNOAUTH\<close>, which is neither bad-version nor no-such-node: RetryChange stops, but
  it returns nil, not that error. The Create branch of the same loop returns its error,
  and the comment above the function says "stop and return the error found".
\<close>

theorem RetryChange_swallows_set_error:
  "Get (demo_rt (\<lambda>w. if w = 1 then ZNOAUTH else ZOK)) demo_conn ''/test'' 0
     = ((''one'', Some demo_stat, None), 1)
   \<and> demo_change ''one'' (Some demo_stat) = (''two'', None)
   \<and> Set (demo_rt (\<lambda>w. if w = 1 then ZNOAUTH else ZOK)) demo_conn ''/test'' ''two''
        (Version demo_stat) 1 = ((None, Some (Code ZNOAUTH)), 2)
   \<and> RetryChange (demo_rt (\<lambda>w. if w = 1 then ZNOAUTH else ZOK)) demo_conn ''/test'' 0 []
        demo_change 0 = Some (None, 2)"
  by (subst RetryChange.simps)
     (simp add: Get_def Set_def demo_rt_def demo_change_def zkError_def)

subsection \<open>Exists and Get on absent and present nodes\<close>

lemma Exists_nonode:
  "zoo_wexists rt (handle zk) path None w = ((ZNONODE, cerr, st), w1)
   \<Longrightarrow> Exists False rt zk path w = Done ((None, None), w1)"
  by (simp add: Exists_def)

lemma Get_nonode:
  "zoo_wget rt (handle zk) path None w = ((ZNONODE, cerr, buf, st), w1)
   \<Longrightarrow> Get rt zk path w = (([], None, Some (Code ZNONODE)), w1)"
  by (simp add: Get_def zkError_def)

lemma Exists_existing:
  "zoo_wexists rt (handle zk) path None w = ((ZOK, cerr, st), w1)
   \<Longrightarrow> Exists False rt zk path w = Done ((Some zero_Stat, None), w1)"
  by (simp add: Exists_def)

lemma Exists_nil_checked: "Exists True rt zk path w = Panic nil_deref"
  by (simp add: Exists_def)

text \<open>
  C2 at a failing input. The node exists and the C call reports a stat with data length
  3. Exists returns a non-nil stat, but it is the zeroed \<^verbatim>\<open>cstat\<close>: the C call was
  given \<^verbatim>\<open>&stat.c\<close>, not \<^verbatim>\<open>&cstat.c\<close>. (With nil checks, the call panics instead.)
  ExistsW, which passes \<^verbatim>\<open>&cstat.c\<close>, returns the stat of the node.
\<close>

theorem Exists_returns_zeroed_stat:
  "zoo_wexists (demo_rt (\<lambda>_. ZOK)) (handle demo_conn) ''/test'' None 0
     = ((ZOK, None, demo_stat), 1)
   \<and> Exists False (demo_rt (\<lambda>_. ZOK)) demo_conn ''/test'' 0 = Done ((Some zero_Stat, None), 1)
   \<and> Exists True (demo_rt (\<lambda>_. ZOK)) demo_conn ''/test'' 0 = Panic nil_deref
   \<and> dataLength demo_stat = 3 \<and> dataLength zero_Stat = 0
   \<and> ExistsW (demo_rt (\<lambda>_. ZOK)) 0 ''/test'' demo_dialed 0
       = Done ((Some demo_stat, Some 1, None), demo_process, 1)"
  by (simp add: Exists_def ExistsW_def createWatch_def demo_rt_def demo_stat_def zero_Stat_def
      demo_dialed_def demo_process_def demo_conn_def set_watchChannels_def Let_def)

subsection \<open>Stream capacities\<close>

text \<open>
  Every stream that GetW, ChildrenW or ExistsW returns is a new channel of capacity 32.
  (That the send is non-blocking and panics on a full buffer is \<open>sendEvent_full_panics\<close>.)
\<close>

lemma GetW_stream:
  "GetW rt zk path s w = Done ((d, st, Some ch, err), s', w')
   \<Longrightarrow> ch = length (chans s) \<and> chans s' = chans s @ [new_chan 32]"
  by (cases "zk < length (conns s)")
     (auto simp: GetW_def createWatch_Done createWatch_Panic forgetWatch_def
        split: prod.splits if_splits)

lemma ChildrenW_stream:
  "ChildrenW rt zk path s w = Done ((d, st, Some ch, err), s', w')
   \<Longrightarrow> ch = length (chans s) \<and> chans s' = chans s @ [new_chan 32]"
  by (cases "zk < length (conns s)")
     (auto simp: ChildrenW_def createWatch_Done createWatch_Panic forgetWatch_def Let_def
        split: prod.splits if_splits)

lemma ExistsW_stream:
  "ExistsW rt zk path s w = Done ((st, Some ch, err), s', w')
   \<Longrightarrow> ch = length (chans s) \<and> chans s' = chans s @ [new_chan 32]"
  by (cases "zk < length (conns s)")
     (auto simp: ExistsW_def createWatch_Done createWatch_Panic forgetWatch_def
        split: prod.splits if_splits)

text \<open>
  C3 at a failing input. After Dial and one GetW the watch with id 1 is not the session
  watch (id 0), yet its stream has capacity 32: GetW calls \<^verbatim>\<open>createWatch(true)\<close>.
  \<^verbatim>\<open>createWatch(false)\<close>, which no caller uses, would give capacity 1.
\<close>

theorem GetW_stream_has_capacity_32:
  "dial (demo_rt (\<lambda>_. ZOK)) ''localhost:2181'' 5000000000 init_process 0
     = Done (Some (0, 0), None, demo_dialed, 1)
   \<and> GetW (demo_rt (\<lambda>_. ZOK)) 0 ''/test'' demo_dialed 1
       = Done ((''one'', Some demo_stat, Some 1, None), demo_process, 2)
   \<and> sessionWatchId (conns demo_process ! 0) = 0
   \<and> map_of (watchChannels (conns demo_process ! 0)) 1 = Some 1
   \<and> ch_cap (chans demo_process ! 1) = 32
   \<and> createWatch 0 False demo_dialed
       = Done (1, 1, demo_process\<lparr>chans := [new_chan 32, new_chan 1]\<rparr>)"
  by (simp add: dial_def GetW_def createWatch_def demo_rt_def init_process_def
      demo_dialed_def demo_process_def demo_conn_def set_watchChannels_def Let_def
      runWatchLoop_def new_chan_def)

subsection \<open>The well-formed registry is preserved\<close>

lemma disjoint_after_insert:
  "A' \<subseteq> insert n A \<Longrightarrow> B' \<subseteq> B \<Longrightarrow> A \<inter> B = {} \<Longrightarrow> n \<notin> B \<Longrightarrow> A' \<inter> B' = {}"
  by blast

lemma disjoint_subsets: "A' \<subseteq> A \<Longrightarrow> B' \<subseteq> B \<Longrightarrow> A \<inter> B = {} \<Longrightarrow> A' \<inter> B' = {}"
  by blast

lemma wf_valid:
  "wf_process s \<Longrightarrow> zk < length (conns s) \<Longrightarrow> ch \<in> snd ` set (wc s zk)
   \<Longrightarrow> ch < length (chans s) \<and> \<not> ch_closed (chans s ! ch)"
  unfolding wf_process_def by blast

lemma wf_distinct:
  "wf_process s \<Longrightarrow> zk < length (conns s)
   \<Longrightarrow> distinct (map fst (wc s zk)) \<and> distinct (map snd (wc s zk))"
  unfolding wf_process_def by blast

lemma wf_disjoint:
  "wf_process s \<Longrightarrow> zk1 < length (conns s) \<Longrightarrow> zk2 < length (conns s) \<Longrightarrow> zk1 \<noteq> zk2
   \<Longrightarrow> snd ` set (wc s zk1) \<inter> snd ` set (wc s zk2) = {}"
  unfolding wf_process_def by blast

lemma wf_watchConns: "wf_process s \<Longrightarrow> distinct (map fst (watchConns s))"
  unfolding wf_process_def by blast

lemma set_delete: "set (AList.delete k al) = {p \<in> set al. fst p \<noteq> k}"
  by (auto simp: AList.delete_eq)

lemma delete_as_filter: "AList.delete k al = filter (\<lambda>p. fst p \<noteq> k) al"
  by (induction al) auto

lemma snd_set_delete_subset: "snd ` set (AList.delete k al) \<subseteq> snd ` set al"
  by (auto simp: set_delete)

lemma distinct_snd_delete: "distinct (map snd al) \<Longrightarrow> distinct (map snd (AList.delete k al))"
  by (simp add: AList.delete_eq distinct_map_filter)

lemma set_update_subset: "set (AList.update k v al) \<subseteq> insert (k, v) (set al)"
  by (induction al) auto

lemma snd_set_update_subset: "snd ` set (AList.update k v al) \<subseteq> insert v (snd ` set al)"
  using set_update_subset [of k v al] by force

lemma distinct_snd_update:
  "distinct (map snd al) \<Longrightarrow> v \<notin> snd ` set al \<Longrightarrow> distinct (map snd (AList.update k v al))"
proof (induction al)
  case Nil
  then show ?case by simp
next
  case (Cons p al)
  obtain k' v' where p: "p = (k', v')" by (cases p)
  show ?case
  proof (cases "k' = k")
    case True
    with Cons.prems p show ?thesis by auto
  next
    case False
    from Cons.prems p have "v' \<notin> snd ` set al" "v' \<noteq> v" by auto
    with snd_set_update_subset [of k v al] have "v' \<notin> snd ` set (AList.update k v al)" by auto
    with False p Cons show ?thesis by auto
  qed
qed

lemma wc_conns_update:
  "zk < length (conns s) \<Longrightarrow> conns s' = list_update (conns s) zk ((conns s ! zk)\<lparr>watchChannels := m\<rparr>)
   \<Longrightarrow> wc s' z = (if z = zk then m else wc s z)"
  by (simp add: wc_def nth_list_update)

text \<open>Removing an id from a connection, with its channel closed or not, keeps the registry
  well formed as long as every channel still registered is open.\<close>

lemma wf_delete_watch:
  assumes "wf_process s" "zk < length (conns s)"
  shows "wf_process (delete_watch zk w s)"
proof -
  let ?s' = "delete_watch zk w s"
  have len: "length (conns ?s') = length (conns s)" by simp
  have wc': "\<And>z. wc ?s' z = (if z = zk then AList.delete w (wc s zk) else wc s z)"
    using assms(2) by (simp add: wc_def nth_list_update)
  have sub: "\<And>z. snd ` set (wc ?s' z) \<subseteq> snd ` set (wc s z)"
    by (simp add: wc' snd_set_delete_subset)
  show ?thesis
    unfolding wf_process_def
  proof (intro conjI allI impI)
    show "distinct (map fst (watchConns ?s'))"
      using assms(1) by (simp add: wf_process_def distinct_delete)
  next
    fix z assume "z < length (conns ?s')"
    then have z: "z < length (conns s)" by simp
    with assms(1) show "distinct (map fst (wc ?s' z))"
      by (simp add: wc' wf_process_def distinct_delete)
    from z assms(1) show "distinct (map snd (wc ?s' z))"
      by (simp add: wc' wf_process_def distinct_snd_delete)
    show "\<forall>ch\<in>snd ` set (wc ?s' z). ch < length (chans ?s') \<and> \<not> ch_closed (chans ?s' ! ch)"
    proof
      fix ch assume "ch \<in> snd ` set (wc ?s' z)"
      with sub [of z] have "ch \<in> snd ` set (wc s z)" by blast
      from wf_valid [OF assms(1) z this]
      show "ch < length (chans ?s') \<and> \<not> ch_closed (chans ?s' ! ch)" by simp
    qed
  next
    fix z1 z2 assume "z1 < length (conns ?s')" "z2 < length (conns ?s')" "z1 \<noteq> z2"
    then have "snd ` set (wc s z1) \<inter> snd ` set (wc s z2) = {}"
      using wf_disjoint [OF assms(1)] by simp
    from disjoint_subsets [OF sub [of z1] sub [of z2] this]
    show "snd ` set (wc ?s' z1) \<inter> snd ` set (wc ?s' z2) = {}" .
  qed
qed

lemma wf_createWatch:
  assumes "wf_process s" "createWatch zk session s = Done (watchId, watchChannel, s')"
  shows "wf_process s'"
proof -
  have zk: "zk < length (conns s)"
    using assms(2) by (cases "zk < length (conns s)") (simp_all add: createWatch_Panic)
  from assms(2) have s': "s' = s\<lparr>chans := chans s @ [new_chan (if session then 32 else 1)],
         watchCounter := watchCounter s + 1,
         conns := list_update (conns s) zk
            ((conns s ! zk)\<lparr>watchChannels :=
                AList.update (watchCounter s) (length (chans s)) (watchChannels (conns s ! zk))\<rparr>),
         watchConns := AList.update (watchCounter s) zk (watchConns s)\<rparr>"
    by (auto simp: createWatch_Done [OF zk])
  have len: "length (conns s') = length (conns s)" by (simp add: s')
  have chans': "chans s' = chans s @ [new_chan (if session then 32 else 1)]" by (simp add: s')
  have wc': "\<And>z. wc s' z = (if z = zk then AList.update (watchCounter s) (length (chans s)) (wc s zk)
                              else wc s z)"
    using zk by (simp add: s' wc_def nth_list_update)
  have valid: "\<And>z ch. z < length (conns s) \<Longrightarrow> ch \<in> snd ` set (wc s z)
                 \<Longrightarrow> ch < length (chans s) \<and> \<not> ch_closed (chans s ! ch)"
    using assms(1) by (rule wf_valid)
  have sub: "\<And>z. snd ` set (wc s' z) \<subseteq> (if z = zk then insert (length (chans s)) (snd ` set (wc s z))
                                               else snd ` set (wc s z))"
    by (simp add: wc' snd_set_update_subset)
  have fresh: "\<And>z. z < length (conns s) \<Longrightarrow> length (chans s) \<notin> snd ` set (wc s z)"
    using valid by blast
  show ?thesis
    unfolding wf_process_def
  proof (intro conjI allI impI)
    show "distinct (map fst (watchConns s'))"
      using assms(1) by (simp add: s' wf_process_def distinct_update)
  next
    fix z assume "z < length (conns s')"
    then have z: "z < length (conns s)" by (simp add: len)
    with assms(1) show "distinct (map fst (wc s' z))"
      by (simp add: wc' wf_process_def distinct_update)
    from z zk assms(1) fresh [of zk] show "distinct (map snd (wc s' z))"
      by (simp add: wc' wf_process_def distinct_snd_update)
    show "\<forall>ch\<in>snd ` set (wc s' z). ch < length (chans s') \<and> \<not> ch_closed (chans s' ! ch)"
    proof
      fix ch assume "ch \<in> snd ` set (wc s' z)"
      with sub [of z] have "ch = length (chans s) \<or> ch \<in> snd ` set (wc s z)"
        by (auto split: if_splits)
      then show "ch < length (chans s') \<and> \<not> ch_closed (chans s' ! ch)"
      proof
        assume "ch = length (chans s)"
        then show ?thesis by (simp add: chans' new_chan_def)
      next
        assume "ch \<in> snd ` set (wc s z)"
        from valid [OF z this] show ?thesis by (simp add: chans' nth_append)
      qed
    qed
  next
    fix z1 z2 assume a: "z1 < length (conns s')" "z2 < length (conns s')" "z1 \<noteq> z2"
    then have z: "z1 < length (conns s)" "z2 < length (conns s)" by (simp_all add: len)
    from wf_disjoint [OF assms(1) z a(3)]
    have d: "snd ` set (wc s z1) \<inter> snd ` set (wc s z2) = {}" .
    show "snd ` set (wc s' z1) \<inter> snd ` set (wc s' z2) = {}"
    proof (cases "z1 = zk")
      case True
      with a(3) sub [of z1] sub [of z2]
      have "snd ` set (wc s' z1) \<subseteq> insert (length (chans s)) (snd ` set (wc s z1))"
        "snd ` set (wc s' z2) \<subseteq> snd ` set (wc s z2)" by simp_all
      from disjoint_after_insert [OF this d fresh [OF z(2)]] show ?thesis .
    next
      case False
      with sub [of z1] have s1: "snd ` set (wc s' z1) \<subseteq> snd ` set (wc s z1)" by simp
      have s2: "snd ` set (wc s' z2) \<subseteq> insert (length (chans s)) (snd ` set (wc s z2))"
      proof (cases "z2 = zk")
        case True
        with sub [of z2] show ?thesis by simp
      next
        case False
        with sub [of z2] have "snd ` set (wc s' z2) \<subseteq> snd ` set (wc s z2)" by simp
        then show ?thesis by (rule subset_insertI2)
      qed
      from d have d': "snd ` set (wc s z2) \<inter> snd ` set (wc s z1) = {}" by (simp add: Int_commute)
      from disjoint_after_insert [OF s2 s1 d' fresh [OF z(1)]] show ?thesis
        by (simp add: Int_commute)
    qed
  qed
qed

lemma distinct_snd_unique:
  assumes "distinct (map snd al)" "(k1, v) \<in> set al" "(k2, v) \<in> set al"
  shows "k1 = k2"
proof -
  from assms(1) have "inj_on snd (set al)" by (simp add: distinct_map)
  from inj_onD [OF this _ assms(2,3)] show ?thesis by simp
qed

text \<open>The well-formedness of the registry depends only on the maps and on which channels
  are closed.\<close>

lemma wf_process_cong:
  assumes "map watchChannels (conns s') = map watchChannels (conns s)"
    "map ch_closed (chans s') = map ch_closed (chans s)"
    "map fst (watchConns s') = map fst (watchConns s)"
  shows "wf_process s' = wf_process s"
proof -
  from assms(1) have len: "length (conns s') = length (conns s)" by (rule map_eq_imp_length_eq)
  from assms(2) have lenc: "length (chans s') = length (chans s)" by (rule map_eq_imp_length_eq)
  have wc: "\<And>z. z < length (conns s) \<Longrightarrow> wc s' z = wc s z"
  proof -
    fix z assume z: "z < length (conns s)"
    then have "map watchChannels (conns s') ! z = map watchChannels (conns s) ! z"
      using assms(1) by simp
    with z len show "wc s' z = wc s z" by (simp add: wc_def)
  qed
  have cl: "\<And>c. c < length (chans s) \<Longrightarrow> ch_closed (chans s' ! c) = ch_closed (chans s ! c)"
  proof -
    fix c assume c: "c < length (chans s)"
    then have "map ch_closed (chans s') ! c = map ch_closed (chans s) ! c"
      using assms(2) by simp
    with c lenc show "ch_closed (chans s' ! c) = ch_closed (chans s ! c)" by simp
  qed
  show ?thesis
    unfolding wf_process_def len lenc assms(3)
    using wc cl by (intro arg_cong2 [where f = "(\<and>)"] refl) (auto cong: conj_cong)
qed

lemma wf_update_chan_same_closed:
  assumes "wf_process s" "ch < length (chans s)" "ch_closed c = ch_closed (chans s ! ch)"
  shows "wf_process (s\<lparr>chans := list_update (chans s) ch c\<rparr>)"
proof -
  have "map ch_closed (list_update (chans s) ch c) = map ch_closed (chans s)"
    using assms(2,3) by (simp add: map_update list_update_same_conv)
  then have "wf_process (s\<lparr>chans := list_update (chans s) ch c\<rparr>) = wf_process s"
    by (intro wf_process_cong) simp_all
  with assms(1) show ?thesis by simp
qed

lemma wf_update_unregistered:
  assumes "wf_process s" "\<not> registered ch s"
  shows "wf_process (s\<lparr>chans := list_update (chans s) ch c\<rparr>)"
proof -
  let ?s' = "s\<lparr>chans := list_update (chans s) ch c\<rparr>"
  have wc': "\<And>z. wc ?s' z = wc s z" by (simp add: wc_def)
  show ?thesis
    unfolding wf_process_def
  proof (intro conjI allI impI)
    show "distinct (map fst (watchConns ?s'))" using wf_watchConns [OF assms(1)] by simp
  next
    fix z assume "z < length (conns ?s')"
    then have z: "z < length (conns s)" by simp
    from wf_distinct [OF assms(1) z]
    show "distinct (map fst (wc ?s' z))" "distinct (map snd (wc ?s' z))" by (simp_all add: wc')
    show "\<forall>x\<in>snd ` set (wc ?s' z). x < length (chans ?s') \<and> \<not> ch_closed (chans ?s' ! x)"
    proof
      fix x assume "x \<in> snd ` set (wc ?s' z)"
      then have x: "x \<in> snd ` set (wc s z)" by (simp add: wc')
      with z assms(2) have "x \<noteq> ch" unfolding registered_def by blast
      with wf_valid [OF assms(1) z x]
      show "x < length (chans ?s') \<and> \<not> ch_closed (chans ?s' ! x)" by simp
    qed
  next
    fix z1 z2 assume "z1 < length (conns ?s')" "z2 < length (conns ?s')" "z1 \<noteq> z2"
    then show "snd ` set (wc ?s' z1) \<inter> snd ` set (wc ?s' z2) = {}"
      using wf_disjoint [OF assms(1), of z1 z2] by (simp add: wc')
  qed
qed

text \<open>Once its id is deleted, a channel is registered nowhere.\<close>

lemma unregistered_after_delete:
  assumes "wf_process s" "zk < length (conns s)" "(w, ch) \<in> set (wc s zk)"
  shows "\<not> registered ch (delete_watch zk w s)"
proof
  let ?s' = "delete_watch zk w s"
  assume "registered ch ?s'"
  then obtain z where z: "z < length (conns s)" and ch: "ch \<in> snd ` set (wc ?s' z)"
    unfolding registered_def by auto
  have wc': "wc ?s' z = (if z = zk then AList.delete w (wc s zk) else wc s z)"
    using assms(2) by (simp add: wc_def nth_list_update)
  have in_zk: "ch \<in> snd ` set (wc s zk)" using assms(3) by force
  show False
  proof (cases "z = zk")
    case True
    with ch wc' obtain k where k: "(k, ch) \<in> set (AList.delete w (wc s zk))" by auto
    then have "(k, ch) \<in> set (wc s zk)" "k \<noteq> w" by (simp_all add: set_delete)
    with distinct_snd_unique [OF _ this(1) assms(3)] wf_distinct [OF assms(1,2)]
    show False by simp
  next
    case False
    with ch wc' have "ch \<in> snd ` set (wc s z)" by simp
    with in_zk wf_disjoint [OF assms(1) z assms(2) False] show False by blast
  qed
qed

lemma map_of_in_wc: "map_of (wc s zk) w = Some ch \<Longrightarrow> (w, ch) \<in> set (wc s zk)"
  by (rule map_of_SomeD)

lemma wf_retire:
  assumes "wf_process s" "zk < length (conns s)" "(w, ch) \<in> set (wc s zk)"
  shows "wf_process ((delete_watch zk w s)\<lparr>chans := list_update (chans s) ch c\<rparr>)"
proof -
  have "wf_process (delete_watch zk w s)" using assms(1,2) by (rule wf_delete_watch)
  from wf_update_unregistered [OF this unregistered_after_delete [OF assms], of c]
  show ?thesis by simp
qed

lemma wf_sendEvent:
  assumes "wf_process s" "sendEvent w e s = Done s'"
  shows "wf_process s'"
proof -
  from sendEvent_Done_cases [OF assms(2)] show ?thesis
  proof (elim disjE exE conjE)
    assume "s' = s" with assms(1) show ?thesis by simp
  next
    fix zk ch
    assume r: "reaches_send w e s zk ch"
      and s': "s' = (if w \<noteq> sessionWatchId (conns s ! zk)
               then (delete_watch zk w s)\<lparr>chans := list_update (chans s) ch
                      ((accepted (chans s ! ch) e)\<lparr>ch_closed := True\<rparr>)\<rparr>
               else s\<lparr>chans := list_update (chans s) ch (accepted (chans s ! ch) e)\<rparr>)"
    from r have zk: "zk < length (conns s)" and ch: "ch < length (chans s)"
      and reg: "(w, ch) \<in> set (wc s zk)"
      by (auto simp: reaches_send_def wc_def dest: map_of_SomeD)
    show ?thesis
    proof (cases "w \<noteq> sessionWatchId (conns s ! zk)")
      case True
      with s' wf_retire [OF assms(1) zk reg] show ?thesis by simp
    next
      case False
      with s' wf_update_chan_same_closed [OF assms(1) ch, of "accepted (chans s ! ch) e"]
      show ?thesis by (simp add: accepted_def)
    qed
  qed
qed

lemma closed_all_Nil: "zk < length (conns s) \<Longrightarrow> closed_all zk [] s s"
  by (simp add: closed_all_def wc_def list_update_same_conv map_nth)

lemma close_chan_as_map:
  "ch < length cs \<Longrightarrow>
   list_update cs ch ((cs ! ch)\<lparr>ch_closed := True\<rparr>)
     = map (\<lambda>c. if c = ch then (cs ! c)\<lparr>ch_closed := True\<rparr> else cs ! c) [0..<length cs]"
  by (rule nth_equalityI) (simp_all add: nth_list_update)

lemma closed_all_Cons:
  assumes "zk < length (conns s)" "ch < length (chans s)"
    "closed_all zk rest
       ((delete_watch zk w s)\<lparr>chans := list_update (chans s) ch
           ((chans s ! ch)\<lparr>ch_closed := True\<rparr>)\<rparr>) s'"
  shows "closed_all zk ((w, ch) # rest) s s'"
proof -
  let ?s2 = "(delete_watch zk w s)\<lparr>chans := list_update (chans s) ch
           ((chans s ! ch)\<lparr>ch_closed := True\<rparr>)\<rparr>"
  have wc2: "wc ?s2 zk = filter (\<lambda>p. fst p \<noteq> w) (wc s zk)"
    using assms(1) by (simp add: wc_def delete_as_filter)
  have f: "\<And>xs :: (uintptr \<times> 'a) list. filter (\<lambda>p. fst p \<notin> fst ` set rest) (filter (\<lambda>p. fst p \<noteq> w) xs)
             = filter (\<lambda>p. fst p \<notin> fst ` set ((w, ch) # rest)) xs"
    by (auto intro: filter_cong)
  have c1: "conns s' = list_update (conns s) zk
         ((conns s ! zk)\<lparr>watchChannels :=
            filter (\<lambda>p. fst p \<notin> fst ` set ((w, ch) # rest)) (wc s zk)\<rparr>)"
    using assms(3) assms(1) unfolding closed_all_def wc2 f [symmetric]
    by simp
  have c2: "watchConns s' = filter (\<lambda>p. fst p \<notin> fst ` set ((w, ch) # rest)) (watchConns s)"
    using assms(3) unfolding closed_all_def f [symmetric]
    by (simp add: delete_as_filter)
  have c3: "chans s' = map (\<lambda>c. if c \<in> snd ` set ((w, ch) # rest)
                                then (chans s ! c)\<lparr>ch_closed := True\<rparr>
                                else chans s ! c) [0..<length (chans s)]"
  proof (rule nth_equalityI)
    show "length (chans s') = length (map (\<lambda>c. if c \<in> snd ` set ((w, ch) # rest)
                                then (chans s ! c)\<lparr>ch_closed := True\<rparr>
                                else chans s ! c) [0..<length (chans s)])"
      using assms(3) by (simp add: closed_all_def)
  next
    fix i assume "i < length (chans s')"
    then have i: "i < length (chans s)" using assms(3) by (simp add: closed_all_def)
    from assms(3) have "chans s' ! i =
        (if i \<in> snd ` set rest then (chans ?s2 ! i)\<lparr>ch_closed := True\<rparr> else chans ?s2 ! i)"
      using i by (simp add: closed_all_def)
    then show "chans s' ! i = map (\<lambda>c. if c \<in> snd ` set ((w, ch) # rest)
                                then (chans s ! c)\<lparr>ch_closed := True\<rparr>
                                else chans s ! c) [0..<length (chans s)] ! i"
      using i assms(2) by (simp add: nth_list_update)
  qed
  from assms(3) c1 c2 c3 show ?thesis by (simp add: closed_all_def)
qed

lemma closeAll_loop_Done:
  assumes "wf_process s" "zk < length (conns s)" "set al \<subseteq> set (wc s zk)"
    "distinct (map fst al)"
  shows "\<exists>s'. closeAll_loop zk al s = Done s' \<and> wf_process s' \<and> closed_all zk al s s'"
  using assms
proof (induction al arbitrary: s)
  case Nil
  then show ?case by (simp add: closed_all_Nil)
next
  case (Cons p rest)
  obtain w ch where p: "p = (w, ch)" by (cases p)
  from Cons.prems(3) p have reg: "(w, ch) \<in> set (wc s zk)" by simp
  then have "ch \<in> snd ` set (wc s zk)" by force
  from wf_valid [OF Cons.prems(1,2) this]
  have ch: "ch < length (chans s)" "\<not> ch_closed (chans s ! ch)" by simp_all
  let ?s2 = "(delete_watch zk w s)\<lparr>chans := list_update (chans s) ch
           ((chans s ! ch)\<lparr>ch_closed := True\<rparr>)\<rparr>"
  have eq: "delete_watch zk w
          (s\<lparr>chans := list_update (chans s) ch ((chans s ! ch)\<lparr>ch_closed := True\<rparr>)\<rparr>) = ?s2"
    by (cases s) (simp add: delete_watch_def set_watchChannels_def)
  have "closeAll_loop zk (p # rest) s = closeAll_loop zk rest (delete_watch zk w
          (s\<lparr>chans := list_update (chans s) ch ((chans s ! ch)\<lparr>ch_closed := True\<rparr>)\<rparr>))"
    using ch by (simp add: p close_chan_def)
  then have step: "closeAll_loop zk (p # rest) s = closeAll_loop zk rest ?s2"
    by (simp only: eq)
  have wf2: "wf_process ?s2" using Cons.prems(1,2) reg by (rule wf_retire)
  have zk2: "zk < length (conns ?s2)" using Cons.prems(2) by simp
  have wc2: "wc ?s2 zk = AList.delete w (wc s zk)"
    using Cons.prems(2) by (simp add: wc_def)
  have sub2: "set rest \<subseteq> set (wc ?s2 zk)"
  proof
    fix q assume q: "q \<in> set rest"
    with Cons.prems(3) have "q \<in> set (wc s zk)" by auto
    moreover from q Cons.prems(4) p have "fst q \<noteq> w" by force
    ultimately show "q \<in> set (wc ?s2 zk)" by (simp add: wc2 set_delete)
  qed
  from Cons.prems(4) have d2: "distinct (map fst rest)" by simp
  from Cons.IH [OF wf2 zk2 sub2 d2]
  obtain s' where s': "closeAll_loop zk rest ?s2 = Done s'" "wf_process s'"
    "closed_all zk rest ?s2 s'" by blast
  from closed_all_Cons [OF Cons.prems(2) ch(1) s'(3)] s'(1,2) step p
  show ?case by simp
qed

lemma closeAllWatches_Done:
  assumes "wf_process s" "zk < length (conns s)"
  shows "\<exists>s'. closeAllWatches zk s = Done s' \<and> wf_process s' \<and> closed_all zk (wc s zk) s s'"
proof -
  from wf_distinct [OF assms] have "distinct (map fst (wc s zk))" by simp
  from closeAll_loop_Done [OF assms subset_refl this] assms(2)
  show ?thesis by (simp add: closeAllWatches_def wc_def)
qed

lemma closed_all_effects:
  assumes "closed_all zk (wc s zk) s s'" "zk < length (conns s)" "wf_process s"
  shows "watchChannels (conns s' ! zk) = []"
    and "handle (conns s' ! zk) = handle (conns s ! zk)"
    and "sessionWatchId (conns s' ! zk) = sessionWatchId (conns s ! zk)"
    and "length (conns s') = length (conns s)"
    and "p \<in> set (wc s zk) \<Longrightarrow> map_of (watchConns s') (fst p) = None"
    and "p \<in> set (wc s zk) \<Longrightarrow> ch_closed (chans s' ! snd p)"
proof -
  have c: "conns s' = list_update (conns s) zk
         ((conns s ! zk)\<lparr>watchChannels := filter (\<lambda>p. fst p \<notin> fst ` set (wc s zk)) (wc s zk)\<rparr>)"
    using assms(1) by (simp add: closed_all_def)
  have e: "filter (\<lambda>p. fst p \<notin> fst ` set (wc s zk)) (wc s zk) = []"
    by (simp add: filter_empty_conv)
  from c e assms(2) show "watchChannels (conns s' ! zk) = []"
    "handle (conns s' ! zk) = handle (conns s ! zk)"
    "sessionWatchId (conns s' ! zk) = sessionWatchId (conns s ! zk)"
    "length (conns s') = length (conns s)" by simp_all
  {
    assume p: "p \<in> set (wc s zk)"
    have "fst p \<notin> fst ` set (watchConns s')"
      using assms(1) p by (auto simp: closed_all_def)
    then show "map_of (watchConns s') (fst p) = None" by (simp add: map_of_eq_None_iff)
    from p have "snd p \<in> snd ` set (wc s zk)" by simp
    with wf_valid [OF assms(3,2)] have "snd p < length (chans s)" by blast
    with p assms(1) show "ch_closed (chans s' ! snd p)"
      by (simp add: closed_all_def)
  }
qed

subsection \<open>Close\<close>

lemma wf_demo_process: "wf_process demo_process"
  by (simp add: wf_process_def demo_process_def demo_conn_def wc_def new_chan_def
      All_less_Suc)

text \<open>
  C6. On a connection whose handle is not nil, in a well-formed registry, Close requests
  the native close (the outside state and the status are those of \<^verbatim>\<open>zookeeper_close\<close>),
  returns, and leaves the handle nil, the connection's \<^verbatim>\<open>watchChannels\<close> empty,
  every id it held absent from \<^verbatim>\<open>watchConns\<close> and every channel it held closed. Any
  later Close on that connection returns \<^verbatim>\<open>ZCLOSING\<close> and changes neither the process
  nor the outside state.
\<close>

theorem Close_then_ZCLOSING:
  assumes "wf_process s" "zk < length (conns s)" "handle (conns s ! zk) = Some h"
    "zookeeper_close rt (Some h) w = ((rc, cerr), w')"
  shows "\<exists>s'. Close rt zk s w = Done (zkError rc cerr, s', w')
       \<and> handle (conns s' ! zk) = None \<and> watchChannels (conns s' ! zk) = []
       \<and> (\<forall>p\<in>set (watchChannels (conns s ! zk)).
             map_of (watchConns s') (fst p) = None \<and> ch_closed (chans s' ! snd p))
       \<and> Close rt zk s' w'' = Done (Some (Code ZCLOSING), s', w'')"
proof -
  from closeAllWatches_Done [OF assms(1,2)]
  obtain s1 where s1: "closeAllWatches zk s = Done s1" "wf_process s1"
    "closed_all zk (wc s zk) s s1" by blast
  note eff = closed_all_effects [OF s1(3) assms(2,1)]
  define s2 where "s2 = stopWatchLoop s1"
  define s3 where "s3 = s2\<lparr>conns := list_update (conns s2) zk ((conns s2 ! zk)\<lparr>handle := None\<rparr>)\<rparr>"
  have f2: "conns s2 = conns s1" "chans s2 = chans s1" "watchConns s2 = watchConns s1"
    by (simp_all add: s2_def stopWatchLoop_def Let_def)
  have zk3: "zk < length (conns s3)" using assms(2) eff(4) by (simp add: s3_def f2)
  have c3: "conns s3 ! zk = (conns s1 ! zk)\<lparr>handle := None\<rparr>"
    using assms(2) eff(4) by (simp add: s3_def f2)
  have r: "Close rt zk s w = Done (zkError rc cerr, s3, w')"
    using assms(2,3,4) s1(1) by (simp add: Close_def s3_def s2_def Let_def)
  have h3: "handle (conns s3 ! zk) = None" by (simp add: c3)
  have w3: "watchChannels (conns s3 ! zk) = []" using eff(1) by (simp add: c3)
  have all: "\<forall>p\<in>set (watchChannels (conns s ! zk)).
             map_of (watchConns s3) (fst p) = None \<and> ch_closed (chans s3 ! snd p)"
    using eff(5,6) by (simp add: s3_def f2 wc_def)
  have again: "Close rt zk s3 w'' = Done (Some (Code ZCLOSING), s3, w'')"
    using zk3 h3 by (simp add: Close_def)
  from r h3 w3 all again show ?thesis by blast
qed

theorem Close_then_ZCLOSING_witness:
  "wf_process demo_process \<and> 0 < length (conns demo_process)
   \<and> handle (conns demo_process ! 0) = Some 1
   \<and> zookeeper_close (demo_rt (\<lambda>_. ZOK)) (Some 1) 2 = ((ZOK, None), 3)
   \<and> (\<exists>s'. Close (demo_rt (\<lambda>_. ZOK)) 0 demo_process 2 = Done (None, s', 3)
         \<and> handle (conns s' ! 0) = None \<and> watchChannels (conns s' ! 0) = []
         \<and> map_of (watchConns s') 0 = None \<and> map_of (watchConns s') 1 = None
         \<and> ch_closed (chans s' ! 0) \<and> ch_closed (chans s' ! 1)
         \<and> Close (demo_rt (\<lambda>_. ZOK)) 0 s' 3 = Done (Some (Code ZCLOSING), s', 3))"
proof -
  have h: "0 < length (conns demo_process)" "handle (conns demo_process ! 0) = Some 1"
    by (simp_all add: demo_process_def demo_conn_def)
  have z: "zookeeper_close (demo_rt (\<lambda>_. ZOK)) (Some 1) 2 = ((ZOK, None), 3)"
    by (simp add: demo_rt_def)
  have e: "zkError ZOK None = None" by (simp add: zkError_def)
  have m: "watchChannels (conns demo_process ! 0) = [(0, 0), (1, 1)]"
    by (simp add: demo_process_def demo_conn_def)
  from Close_then_ZCLOSING [OF wf_demo_process h z, where w'' = 3]
  have "\<exists>s'. Close (demo_rt (\<lambda>_. ZOK)) 0 demo_process 2 = Done (None, s', 3)
         \<and> handle (conns s' ! 0) = None \<and> watchChannels (conns s' ! 0) = []
         \<and> map_of (watchConns s') 0 = None \<and> map_of (watchConns s') 1 = None
         \<and> ch_closed (chans s' ! 0) \<and> ch_closed (chans s' ! 1)
         \<and> Close (demo_rt (\<lambda>_. ZOK)) 0 s' 3 = Done (Some (Code ZCLOSING), s', 3)"
    by (simp add: e m) blast
  with wf_demo_process h z show ?thesis by blast
qed

subsection \<open>Watch identifiers\<close>

lemma createWatch_counter:
  "createWatch zk session s = Done (watchId, ch, s')
   \<Longrightarrow> watchId = watchCounter s \<and> watchCounter s' = watchCounter s + 1"
  by (cases "zk < length (conns s)") (auto simp: createWatch_Done createWatch_Panic)

lemma forgetWatch_counter:
  "forgetWatch zk w s = Done s' \<Longrightarrow> watchCounter s' = watchCounter s"
  by (auto simp: forgetWatch_def split: if_splits)

lemma closeAll_loop_counter:
  "closeAll_loop zk al s = Done s' \<Longrightarrow> watchCounter s' = watchCounter s"
proof (induction al arbitrary: s)
  case Nil
  then show ?case by simp
next
  case (Cons p al)
  obtain w ch where p: "p = (w, ch)" by (cases p)
  from Cons.prems p obtain s1 where s1: "close_chan ch s = Done s1"
    and r: "closeAll_loop zk al (delete_watch zk w s1) = Done s'"
    by (auto split: outcome.splits)
  from close_chan_Done [OF s1] have "watchCounter s1 = watchCounter s" by simp
  with Cons.IH [OF r] show ?case by simp
qed

lemma closeAllWatches_counter:
  "closeAllWatches zk s = Done s' \<Longrightarrow> watchCounter s' = watchCounter s"
  by (auto simp: closeAllWatches_def closeAll_loop_counter split: if_splits)

lemma sendEvent_counter:
  "sendEvent w e s = Done s' \<Longrightarrow> watchCounter s' = watchCounter s"
  by (drule sendEvent_Done_cases) (auto split: if_splits)

text \<open>The ids a run allocates are the successive values of the counter.\<close>

lemma reg_run_ids:
  "reg_run cs s = Done (ids, s')
   \<Longrightarrow> ids = map (\<lambda>i. watchCounter s + of_nat i) [0..<length ids]
       \<and> watchCounter s' = watchCounter s + of_nat (length ids)"
proof (induction cs arbitrary: s ids)
  case Nil
  then show ?case by simp
next
  case (Cons c cs)
  show ?case
  proof (cases c)
    case (CreateWatch zk session)
    with Cons.prems obtain watchId ch s1 ids' where
      c: "createWatch zk session s = Done (watchId, ch, s1)"
      and r: "reg_run cs s1 = Done (ids', s')" and ids: "ids = watchId # ids'"
      by (auto split: outcome.splits prod.splits)
    from createWatch_counter [OF c]
    have w: "watchId = watchCounter s" "watchCounter s1 = watchCounter s + 1" by simp_all
    from Cons.IH [OF r]
    have ih: "ids' = map (\<lambda>i. watchCounter s1 + of_nat i) [0..<length ids']"
      "watchCounter s' = watchCounter s1 + of_nat (length ids')" by simp_all
    have "map (\<lambda>i. watchCounter s + of_nat i) [0..<length ids]
            = watchCounter s # map (\<lambda>i. watchCounter s + of_nat (Suc i)) [0..<length ids']"
      by (simp add: ids upt_conv_Cons map_Suc_upt [symmetric] del: upt_Suc)
    also have "map (\<lambda>i. watchCounter s + of_nat (Suc i)) [0..<length ids'] = ids'"
      using ih(1) by (simp add: w(2) add.assoc add.commute [of 1])
    finally show ?thesis using ih(2) w ids by (simp add: add.assoc add.commute [of 1])
  next
    case (ForgetWatch zk w)
    with Cons.prems obtain s1 where c: "forgetWatch zk w s = Done s1"
      and r: "reg_run cs s1 = Done (ids, s')" by (auto split: outcome.splits)
    from Cons.IH [OF r] forgetWatch_counter [OF c] show ?thesis by simp
  next
    case (CloseAllWatches zk)
    with Cons.prems obtain s1 where c: "closeAllWatches zk s = Done s1"
      and r: "reg_run cs s1 = Done (ids, s')" by (auto split: outcome.splits)
    from Cons.IH [OF r] closeAllWatches_counter [OF c] show ?thesis by simp
  next
    case (SendEvent w e)
    with Cons.prems obtain s1 where c: "sendEvent w e s = Done s1"
      and r: "reg_run cs s1 = Done (ids, s')" by (auto split: outcome.splits)
    from Cons.IH [OF r] sendEvent_counter [OF c] show ?thesis by simp
  qed
qed

lemma unat_counter_add:
  fixes c :: uintptr
  assumes "unat c + i < 2 ^ 64"
  shows "unat (c + of_nat i) = unat c + i"
proof -
  from assms have "i < 2 ^ 64" by simp
  then have "unat (of_nat i :: uintptr) = i" by (simp add: unat_of_nat)
  with assms show ?thesis by (simp add: unat_add_lem [THEN iffD1])
qed

lemma counter_values_increase:
  fixes c :: uintptr
  assumes "unat c + n \<le> 2 ^ 64"
  shows "sorted_wrt (<) (map (\<lambda>i. c + of_nat i) [0..<n])"
    and "\<forall>x\<in>set (map (\<lambda>i. c + of_nat i) [0..<n]). c \<le> x"
proof -
  have u: "\<And>i. i < n \<Longrightarrow> unat (c + of_nat i) = unat c + i"
    using assms by (intro unat_counter_add) simp
  show "sorted_wrt (<) (map (\<lambda>i. c + of_nat i) [0..<n])"
    by (simp add: sorted_wrt_iff_nth_less word_less_nat_alt u)
  show "\<forall>x\<in>set (map (\<lambda>i. c + of_nat i) [0..<n]). c \<le> x"
    by (auto simp: word_le_nat_alt u)
qed

text \<open>
  C8, as stated, fails when the counter wraps: \<^verbatim>\<open>watchCounter\<close> is a uintptr and
  \<^verbatim>\<open>watchCounter += 1\<close> takes its largest value to 0. Two createWatch calls from
  that value return the largest id and then 0, which is not greater, and which is in use:
  it is the id of the session watch, whose channel entry the second call overwrites.
\<close>

theorem createWatch_id_wraps_counterexample:
  "reg_run [CreateWatch 0 True, CreateWatch 0 True] wrap_process = Done ([- 1, 0], wrap_created)
   \<and> \<not> ((- 1 :: uintptr) < 0)
   \<and> map_of (watchChannels (conns wrap_process ! 0)) 0 = Some 0
   \<and> map_of (watchChannels (conns wrap_created ! 0)) 0 = Some 3"
  by (simp add: createWatch_def wrap_process_def wrap_created_def demo_process_def
      demo_conn_def set_watchChannels_def Let_def)

text \<open>
  C8, amended. createWatch returns the current value of the one process-wide counter and
  advances it by one, modulo $2^{64}$; the id is smaller than the next one unless it is
  the largest value. The ids that the createWatch calls of any run of registry calls
  return (whatever is forgotten, delivered or closed in between) are the successive
  counter values; as long as the counter does not wrap during the run, each is strictly
  greater than all before it, so none is returned twice.
\<close>

theorem createWatch_ids_increase_until_wrap:
  "(createWatch zk session s = Done (watchId, ch, sc)
      \<longrightarrow> watchId = watchCounter s \<and> watchCounter sc = watchId + 1
          \<and> (watchId \<noteq> - 1 \<longrightarrow> watchId < watchCounter sc))
   \<and> (reg_run cs s = Done (ids, s') \<longrightarrow> unat (watchCounter s) + length ids \<le> 2 ^ 64
      \<longrightarrow> sorted_wrt (<) ids \<and> distinct ids \<and> (\<forall>i\<in>set ids. watchCounter s \<le> i)
          \<and> watchCounter s' = watchCounter s + of_nat (length ids))"
proof (intro conjI impI)
  assume c: "createWatch zk session s = Done (watchId, ch, sc)"
  from createWatch_counter [OF c] show "watchId = watchCounter s" "watchCounter sc = watchId + 1"
    by simp_all
  assume "watchId \<noteq> - 1"
  then have "1 + watchId \<noteq> 0" by (simp add: add_eq_0_iff)
  from unatSuc [OF this] have "watchId < watchId + 1"
    by (simp add: word_less_nat_alt add.commute)
  with createWatch_counter [OF c] show "watchId < watchCounter sc" by simp
next
  assume r: "reg_run cs s = Done (ids, s')" and b: "unat (watchCounter s) + length ids \<le> 2 ^ 64"
  from reg_run_ids [OF r]
  have ids: "ids = map (\<lambda>i. watchCounter s + of_nat i) [0..<length ids]"
    and c: "watchCounter s' = watchCounter s + of_nat (length ids)" by simp_all
  from counter_values_increase [OF b] ids
  show s: "sorted_wrt (<) ids" and "\<forall>i\<in>set ids. watchCounter s \<le> i" by simp_all
  from s show "distinct ids" by (simp add: strict_sorted_iff)
  from c show "watchCounter s' = watchCounter s + of_nat (length ids)" .
qed

theorem createWatch_ids_increase_until_wrap_witness:
  "createWatch 0 True demo_process = Done (2, 2, demo_pending3)
   \<and> watchCounter demo_process = 2 \<and> watchCounter demo_pending3 = 3
   \<and> (2 :: uintptr) \<noteq> - 1 \<and> (2 :: uintptr) < 3
   \<and> (\<exists>s'. reg_run [CreateWatch 0 True, SendEvent 1 demo_changed, ForgetWatch 0 2,
                      CreateWatch 0 False] demo_process = Done ([2, 3], s')
         \<and> watchCounter s' = 4)
   \<and> unat (watchCounter demo_process) + length [2, 3 :: uintptr] \<le> 2 ^ 64
   \<and> sorted_wrt (<) [2, 3 :: uintptr] \<and> distinct [2, 3 :: uintptr]"
proof -
  have c: "createWatch 0 True demo_process = Done (2, 2, demo_pending3)"
    by (simp add: createWatch_def demo_process_def demo_pending3_def demo_conn_def
        set_watchChannels_def Let_def)
  have "\<exists>s'. reg_run [CreateWatch 0 True, SendEvent 1 demo_changed, ForgetWatch 0 2,
                      CreateWatch 0 False] demo_process = Done ([2, 3], s')"
    by (simp add: createWatch_def sendEvent_def forgetWatch_def demo_process_def
        demo_conn_def demo_changed_def set_watchChannels_def delete_watch_def Let_def
        try_send_def close_chan_def new_chan_def event_consts)
  then obtain s' where r: "reg_run [CreateWatch 0 True, SendEvent 1 demo_changed,
      ForgetWatch 0 2, CreateWatch 0 False] demo_process = Done ([2, 3], s')" by blast
  have w: "watchCounter demo_process = 2" by (simp add: demo_process_def)
  have b: "unat (watchCounter demo_process) + length [2, 3 :: uintptr] \<le> 2 ^ 64"
    by (simp add: w)
  note T = createWatch_ids_increase_until_wrap [where zk = 0 and session = True
      and s = demo_process and watchId = 2 and ch = 2 and sc = demo_pending3
      and cs = "[CreateWatch 0 True, SendEvent 1 demo_changed, ForgetWatch 0 2,
                 CreateWatch 0 False]" and ids = "[2, 3]" and s' = s']
  from T c have "watchCounter demo_pending3 = 3" "(2 :: uintptr) < 3" by (simp_all add: w)
  moreover from T r b have "sorted_wrt (<) [2, 3 :: uintptr]" "distinct [2, 3 :: uintptr]"
    "watchCounter s' = 4" by (simp_all add: w)
  ultimately show ?thesis using c r w b by auto
qed

subsection \<open>Frames and the one-shot invariant\<close>

lemma frame_for_refl: "frame_for ch s s"
  by (simp add: frame_for_def)

lemma frame_for_trans:
  assumes "frame_for ch s s1" "frame_for ch s1 s2"
  shows "frame_for ch s s2"
  unfolding frame_for_def
proof (intro conjI allI impI ballI)
  show "length (chans s) \<le> length (chans s2)"
    using assms by (simp add: frame_for_def)
  show "ch_sent (chans s2 ! ch) = ch_sent (chans s ! ch)"
    using assms by (simp add: frame_for_def)
  show "ch_closed (chans s ! ch) \<Longrightarrow> ch_closed (chans s2 ! ch)"
    using assms by (simp add: frame_for_def)
next
  fix z p assume a: "z < length (conns s2)" "p \<in> set (wc s2 z)" "snd p = ch"
  with assms(2) have b: "z < length (conns s1)" "p \<in> set (wc s1 z)"
    "sessionWatchId (conns s2 ! z) = sessionWatchId (conns s1 ! z)"
    unfolding frame_for_def by blast+
  with a(3) assms(1) have c: "z < length (conns s)" "p \<in> set (wc s z)"
    "sessionWatchId (conns s1 ! z) = sessionWatchId (conns s ! z)"
    unfolding frame_for_def by blast+
  from b c show "z < length (conns s)" "p \<in> set (wc s z)"
    "sessionWatchId (conns s2 ! z) = sessionWatchId (conns s ! z)" by simp_all
qed

text \<open>In a well-formed registry a channel is registered once.\<close>

lemma registration_unique:
  assumes "wf_process s" "z1 < length (conns s)" "z2 < length (conns s)"
    "(w1, ch) \<in> set (wc s z1)" "(w2, ch) \<in> set (wc s z2)"
  shows "z1 = z2 \<and> w1 = w2"
proof -
  have i: "ch \<in> snd ` set (wc s z1)" "ch \<in> snd ` set (wc s z2)"
    using assms(4,5) by force+
  have z: "z1 = z2"
  proof (rule ccontr)
    assume "z1 \<noteq> z2"
    from wf_disjoint [OF assms(1,2,3) this] i show False by blast
  qed
  with assms(4,5) wf_distinct [OF assms(1,2)] have "w1 = w2"
    by (auto dest: distinct_snd_unique)
  with z show ?thesis by simp
qed

lemma oneshot_inv_frame:
  assumes "oneshot_inv n ch s" "wf_process s" "frame_for ch s s'"
  shows "oneshot_inv n ch s'"
proof -
  from assms(1) have ch: "ch < length (chans s)" by (simp add: oneshot_inv_def)
  with assms(3) have ch': "ch < length (chans s')" by (simp add: frame_for_def)
  from assms(3) have sent: "ch_sent (chans s' ! ch) = ch_sent (chans s ! ch)"
    and closed: "ch_closed (chans s ! ch) \<Longrightarrow> ch_closed (chans s' ! ch)"
    by (simp_all add: frame_for_def)
  show ?thesis
  proof (cases "registered ch s'")
    case True
    then obtain z p where zp: "z < length (conns s')" "p \<in> set (wc s' z)" "snd p = ch"
      unfolding registered_def by auto
    with assms(3) have old: "z < length (conns s)" "p \<in> set (wc s z)"
      "sessionWatchId (conns s' ! z) = sessionWatchId (conns s ! z)"
      unfolding frame_for_def by blast+
    from old(1,2) zp(3) have "registered ch s" unfolding registered_def by force
    with assms(1) have po: "pending_oneshot ch s" and n: "ch_sent (chans s ! ch) = n"
      by (simp_all add: oneshot_inv_def)
    from po obtain z1 w1 where z1: "z1 < length (conns s)" "(w1, ch) \<in> set (wc s z1)"
      "w1 \<noteq> sessionWatchId (conns s ! z1)" unfolding pending_oneshot_def by blast
    from old(2) zp(3) have "(fst p, ch) \<in> set (wc s z)" by (metis prod.collapse)
    from registration_unique [OF assms(2) z1(1) old(1) z1(2) this]
    have "z1 = z" "w1 = fst p" by simp_all
    with z1(3) old(3) have "fst p \<noteq> sessionWatchId (conns s' ! z)" by simp
    moreover from zp(2,3) have "(fst p, ch) \<in> set (wc s' z)" by (metis prod.collapse)
    ultimately have "pending_oneshot ch s'"
      using zp(1) unfolding pending_oneshot_def by blast
    with True n sent ch' show ?thesis by (simp add: oneshot_inv_def)
  next
    case False
    show ?thesis
    proof (cases "registered ch s")
      case True
      with assms(1) have "ch_sent (chans s ! ch) = n" by (simp add: oneshot_inv_def)
      with False sent ch' show ?thesis by (simp add: oneshot_inv_def)
    next
      case r: False
      with assms(1) have "ch_sent (chans s ! ch) \<le> Suc n"
        "ch_sent (chans s ! ch) = Suc n \<longrightarrow> ch_closed (chans s ! ch)"
        by (simp_all add: oneshot_inv_def)
      with False sent ch' closed show ?thesis by (simp add: oneshot_inv_def)
    qed
  qed
qed

subsection \<open>Frames of the registry operations\<close>

lemma frame_createWatch:
  assumes "createWatch zk session s = Done (watchId, watchChannel, s')" "ch < length (chans s)"
  shows "frame_for ch s s'"
proof -
  have zk: "zk < length (conns s)"
    using assms(1) by (cases "zk < length (conns s)") (simp_all add: createWatch_Panic)
  from assms(1) have s': "s' = s\<lparr>chans := chans s @ [new_chan (if session then 32 else 1)],
         watchCounter := watchCounter s + 1,
         conns := list_update (conns s) zk
            ((conns s ! zk)\<lparr>watchChannels :=
                AList.update (watchCounter s) (length (chans s)) (watchChannels (conns s ! zk))\<rparr>),
         watchConns := AList.update (watchCounter s) zk (watchConns s)\<rparr>"
    by (auto simp: createWatch_Done [OF zk])
  have wc': "\<And>z. wc s' z = (if z = zk then AList.update (watchCounter s) (length (chans s)) (wc s zk)
                              else wc s z)"
    using zk by (simp add: s' wc_def nth_list_update)
  have sid: "\<And>z. sessionWatchId (conns s' ! z) = sessionWatchId (conns s ! z)"
    using zk by (simp add: s' nth_list_update)
  show ?thesis
    unfolding frame_for_def
  proof (intro conjI allI impI ballI)
    fix z p assume a: "z < length (conns s')" "p \<in> set (wc s' z)" "snd p = ch"
    then show "z < length (conns s)" by (simp add: s')
    show "p \<in> set (wc s z)"
    proof (cases "z = zk")
      case True
      with a(2) set_update_subset [of "watchCounter s" "length (chans s)" "wc s zk"]
      have "p = (watchCounter s, length (chans s)) \<or> p \<in> set (wc s zk)"
        by (auto simp: wc')
      with a(3) assms(2) True show ?thesis by auto
    next
      case False
      with a(2) show ?thesis by (simp add: wc')
    qed
    show "sessionWatchId (conns s' ! z) = sessionWatchId (conns s ! z)" by (rule sid)
  qed (use assms(2) in \<open>simp_all add: s' nth_append\<close>)
qed

lemma frame_delete_watch:
  assumes "zk < length (conns s)"
  shows "frame_for ch s (delete_watch zk w s)"
proof -
  let ?s' = "delete_watch zk w s"
  have wc': "\<And>z. wc ?s' z = (if z = zk then AList.delete w (wc s zk) else wc s z)"
    using assms by (simp add: wc_def nth_list_update)
  have sid: "\<And>z. sessionWatchId (conns ?s' ! z) = sessionWatchId (conns s ! z)"
    using assms by (simp add: nth_list_update)
  show ?thesis
    unfolding frame_for_def
  proof (intro conjI allI impI ballI)
    fix z p assume a: "z < length (conns ?s')" "p \<in> set (wc ?s' z)" "snd p = ch"
    then show "z < length (conns s)" by simp
    from a(2) show "p \<in> set (wc s z)" by (cases "z = zk") (simp_all add: wc' set_delete)
    show "sessionWatchId (conns ?s' ! z) = sessionWatchId (conns s ! z)" by (rule sid)
  qed simp_all
qed

lemma frame_closed_all:
  assumes "closed_all zk al s s'" "zk < length (conns s)" "ch < length (chans s)"
  shows "frame_for ch s s'"
proof -
  have c: "conns s' = list_update (conns s) zk
         ((conns s ! zk)\<lparr>watchChannels := filter (\<lambda>p. fst p \<notin> fst ` set al) (wc s zk)\<rparr>)"
    and ch: "chans s' = map (\<lambda>c. if c \<in> snd ` set al then (chans s ! c)\<lparr>ch_closed := True\<rparr>
                               else chans s ! c) [0..<length (chans s)]"
    using assms(1) by (simp_all add: closed_all_def)
  have wc': "\<And>z. wc s' z = (if z = zk then filter (\<lambda>p. fst p \<notin> fst ` set al) (wc s zk)
                              else wc s z)"
    using assms(2) by (simp add: c wc_def nth_list_update)
  have sid: "\<And>z. sessionWatchId (conns s' ! z) = sessionWatchId (conns s ! z)"
    using assms(2) by (simp add: c nth_list_update)
  show ?thesis
    unfolding frame_for_def
  proof (intro conjI allI impI ballI)
    fix z p assume a: "z < length (conns s')" "p \<in> set (wc s' z)" "snd p = ch"
    then show "z < length (conns s)" by (simp add: c)
    from a(2) show "p \<in> set (wc s z)" by (cases "z = zk") (simp_all add: wc')
    show "sessionWatchId (conns s' ! z) = sessionWatchId (conns s ! z)" by (rule sid)
  qed (use assms(3) in \<open>simp_all add: ch\<close>)
qed

lemma frame_same_maps:
  assumes "map watchChannels (conns s') = map watchChannels (conns s)"
    "map sessionWatchId (conns s') = map sessionWatchId (conns s)"
    "chans s' = chans s"
  shows "frame_for ch s s'"
proof -
  from assms(1) have len: "length (conns s') = length (conns s)" by (rule map_eq_imp_length_eq)
  have wc': "\<And>z. z < length (conns s) \<Longrightarrow> wc s' z = wc s z"
  proof -
    fix z assume z: "z < length (conns s)"
    then have "map watchChannels (conns s') ! z = map watchChannels (conns s) ! z"
      using assms(1) by simp
    with z len show "wc s' z = wc s z" by (simp add: wc_def)
  qed
  have sid: "\<And>z. z < length (conns s)
               \<Longrightarrow> sessionWatchId (conns s' ! z) = sessionWatchId (conns s ! z)"
  proof -
    fix z assume z: "z < length (conns s)"
    then have "map sessionWatchId (conns s') ! z = map sessionWatchId (conns s) ! z"
      using assms(2) by simp
    with z len show "sessionWatchId (conns s' ! z) = sessionWatchId (conns s ! z)" by simp
  qed
  show ?thesis
    unfolding frame_for_def using wc' sid len assms(3) by auto
qed

lemma frame_new_conn:
  "frame_for ch s (s\<lparr>conns := conns s @ [\<lparr>watchChannels = [], sessionWatchId = x, handle = h\<rparr>]\<rparr>)"
  unfolding frame_for_def
  by (auto simp: wc_def nth_append less_Suc_eq)

lemma wf_new_conn:
  assumes "wf_process s"
  shows "wf_process (s\<lparr>conns := conns s @ [\<lparr>watchChannels = [], sessionWatchId = x, handle = h\<rparr>]\<rparr>)"
proof -
  let ?s' = "s\<lparr>conns := conns s @ [\<lparr>watchChannels = [], sessionWatchId = x, handle = h\<rparr>]\<rparr>"
  have wc': "\<And>z. wc ?s' z = (if z < length (conns s) then wc s z
                               else if z = length (conns s) then [] else wc ?s' z)"
    by (simp add: wc_def nth_append)
  have wcl: "wc ?s' (length (conns s)) = []" by (simp add: wc_def)
  have wco: "\<And>z. z < length (conns s) \<Longrightarrow> wc ?s' z = wc s z" by (simp add: wc_def nth_append)
  have per_conn: "distinct (map fst (wc ?s' z)) \<and> distinct (map snd (wc ?s' z))
      \<and> (\<forall>c\<in>snd ` set (wc ?s' z). c < length (chans ?s') \<and> \<not> ch_closed (chans ?s' ! c))"
    if "z < length (conns ?s')" for z
  proof (cases "z < length (conns s)")
    case True
    from wf_distinct [OF assms True] wf_valid [OF assms True]
    show ?thesis by (simp add: wco [OF True])
  next
    case False
    with that have "z = length (conns s)" by simp
    then show ?thesis by (simp add: wcl)
  qed
  show ?thesis
    unfolding wf_process_def
  proof (intro conjI allI impI)
    show "distinct (map fst (watchConns ?s'))" using wf_watchConns [OF assms] by simp
  next
    fix z assume z: "z < length (conns ?s')"
    from per_conn [OF z] show "distinct (map fst (wc ?s' z))" "distinct (map snd (wc ?s' z))"
      "\<forall>c\<in>snd ` set (wc ?s' z). c < length (chans ?s') \<and> \<not> ch_closed (chans ?s' ! c)"
      by blast+
  next
    fix z1 z2 assume a: "z1 < length (conns ?s')" "z2 < length (conns ?s')" "z1 \<noteq> z2"
    show "snd ` set (wc ?s' z1) \<inter> snd ` set (wc ?s' z2) = {}"
    proof (cases "z1 < length (conns s) \<and> z2 < length (conns s)")
      case True
      with wf_disjoint [OF assms _ _ a(3)] show ?thesis by (simp add: wco)
    next
      case False
      with a(1,2) have "z1 = length (conns s) \<or> z2 = length (conns s)" by force
      then show ?thesis by (auto simp: wcl)
    qed
  qed
qed

lemma frame_receive: "frame_for ch s (receive ch' s)"
  unfolding frame_for_def receive_def
  by (auto simp: wc_def recv_def nth_list_update split: option.splits list.splits if_splits)

lemma wf_receive:
  assumes "wf_process s"
  shows "wf_process (receive ch' s)"
proof (cases "ch' < length (chans s)")
  case True
  show ?thesis
  proof (cases "recv (chans s ! ch')")
    case None
    with True assms show ?thesis by (simp add: receive_def)
  next
    case (Some r)
    obtain e ok c' where r: "r = (e, ok, c')" by (cases r)
    with Some have "ch_closed c' = ch_closed (chans s ! ch')"
      by (auto simp: recv_def split: list.splits if_splits)
    from wf_update_chan_same_closed [OF assms True this] Some r True
    show ?thesis by (simp add: receive_def)
  qed
next
  case False
  with assms show ?thesis by (simp add: receive_def)
qed

subsection \<open>Stability of the exported operations\<close>

lemma stable_stepI:
  "wf_process s' \<Longrightarrow> (\<And>ch. ch < length (chans s) \<Longrightarrow> frame_for ch s s') \<Longrightarrow> stable_step s s'"
  by (simp add: stable_step_def)

lemma stable_step_refl: "wf_process s \<Longrightarrow> stable_step s s"
  by (simp add: stable_step_def frame_for_refl)

lemma stable_step_trans:
  assumes "stable_step s s1" "stable_step s1 s2"
  shows "stable_step s s2"
proof (rule stable_stepI)
  show "wf_process s2" using assms(2) by (simp add: stable_step_def)
next
  fix ch assume ch: "ch < length (chans s)"
  with assms(1) have f1: "frame_for ch s s1" by (simp add: stable_step_def)
  then have "length (chans s) \<le> length (chans s1)" by (simp add: frame_for_def)
  with ch assms(2) have "frame_for ch s1 s2" by (simp add: stable_step_def)
  with f1 show "frame_for ch s s2" by (rule frame_for_trans)
qed

lemma stable_createWatch:
  assumes "wf_process s" "createWatch zk session s = Done (watchId, watchChannel, s')"
  shows "stable_step s s'"
proof (rule stable_stepI)
  show "wf_process s'" using assms by (rule wf_createWatch)
next
  fix ch assume "ch < length (chans s)"
  with assms(2) show "frame_for ch s s'" by (rule frame_createWatch)
qed

lemma stable_delete_watch:
  assumes "wf_process s" "zk < length (conns s)"
  shows "stable_step s (delete_watch zk w s)"
proof (rule stable_stepI)
  show "wf_process (delete_watch zk w s)" using assms by (rule wf_delete_watch)
next
  fix ch show "frame_for ch s (delete_watch zk w s)" using assms(2) by (rule frame_delete_watch)
qed

lemma stable_closeAllWatches:
  assumes "wf_process s" "closeAllWatches zk s = Done s'"
  shows "stable_step s s'"
proof -
  have zk: "zk < length (conns s)"
    using assms(2) by (cases "zk < length (conns s)") (simp_all add: closeAllWatches_def)
  from closeAllWatches_Done [OF assms(1) zk] assms(2)
  have w: "wf_process s'" and c: "closed_all zk (wc s zk) s s'" by auto
  show ?thesis
  proof (rule stable_stepI)
    show "wf_process s'" by (rule w)
  next
    fix ch assume "ch < length (chans s)"
    with c zk show "frame_for ch s s'" by (rule frame_closed_all)
  qed
qed

lemma stable_same_maps:
  assumes "wf_process s" "map watchChannels (conns s') = map watchChannels (conns s)"
    "map sessionWatchId (conns s') = map sessionWatchId (conns s)"
    "chans s' = chans s" "watchConns s' = watchConns s"
  shows "stable_step s s'"
proof (rule stable_stepI)
  have "wf_process s' = wf_process s"
    using assms(2,4,5) by (intro wf_process_cong) simp_all
  with assms(1) show "wf_process s'" by simp
next
  fix ch show "frame_for ch s s'" using assms(2,3,4) by (rule frame_same_maps)
qed

lemma create_maybe_forget:
  assumes "wf_process s" "createWatch zk session s = Done (watchId, watchChannel, s1)"
    "s' = s1 \<or> s' = delete_watch zk watchId s1"
  shows "stable_step s s'"
proof -
  have zk: "zk < length (conns s)"
    using assms(2) by (cases "zk < length (conns s)") (simp_all add: createWatch_Panic)
  from assms(2) have len: "length (conns s1) = length (conns s)"
    by (auto simp: createWatch_Done [OF zk])
  have st1: "stable_step s s1" using assms(1,2) by (rule stable_createWatch)
  then have "wf_process s1" by (simp add: stable_step_def)
  from stable_delete_watch [OF this, of zk watchId] zk len
  have "stable_step s1 (delete_watch zk watchId s1)" by simp
  with st1 have "stable_step s (delete_watch zk watchId s1)" by (rule stable_step_trans)
  with st1 assms(3) show ?thesis by auto
qed

lemma map_update_same: "list_update (map f xs) i (f (xs ! i)) = map f xs"
  by (cases "i < length xs") (simp_all add: list_update_same_conv list_update_beyond)

lemma GetW_stable:
  assumes "wf_process s" "GetW rt zk path s w = Done (r, s', w')"
  shows "stable_step s s'"
proof (cases "createWatch zk True s")
  case (Panic m)
  with assms(2) show ?thesis by (simp add: GetW_def)
next
  case (Done x)
  obtain watchId watchChannel s1 where x: "x = (watchId, watchChannel, s1)" by (cases x)
  obtain rc cerr buf st w1 where
    z: "zoo_wget rt (handle (conns s1 ! zk)) path (Some watchId) w = ((rc, cerr, buf, st), w1)"
    by (metis prod.exhaust)
  have "s' = s1 \<or> s' = delete_watch zk watchId s1"
    using assms(2) Done x z
    by (cases "rc = ZOK") (simp_all add: GetW_def forgetWatch_def split: if_splits)
  from create_maybe_forget [OF assms(1) Done [unfolded x] this] show ?thesis .
qed

lemma ChildrenW_stable:
  assumes "wf_process s" "ChildrenW rt zk path s w = Done (r, s', w')"
  shows "stable_step s s'"
proof (cases "createWatch zk True s")
  case (Panic m)
  with assms(2) show ?thesis by (simp add: ChildrenW_def)
next
  case (Done x)
  obtain watchId watchChannel s1 where x: "x = (watchId, watchChannel, s1)" by (cases x)
  obtain rc cerr cv st w1 where
    z: "zoo_wget_children2 rt (handle (conns s1 ! zk)) path (Some watchId) w
          = ((rc, cerr, cv, st), w1)"
    by (metis prod.exhaust)
  have "s' = s1 \<or> s' = delete_watch zk watchId s1"
    using assms(2) Done x z
    by (cases "rc = ZOK") (simp_all add: ChildrenW_def forgetWatch_def Let_def split: if_splits)
  from create_maybe_forget [OF assms(1) Done [unfolded x] this] show ?thesis .
qed

lemma ExistsW_stable:
  assumes "wf_process s" "ExistsW rt zk path s w = Done (r, s', w')"
  shows "stable_step s s'"
proof (cases "createWatch zk True s")
  case (Panic m)
  with assms(2) show ?thesis by (simp add: ExistsW_def)
next
  case (Done x)
  obtain watchId watchChannel s1 where x: "x = (watchId, watchChannel, s1)" by (cases x)
  obtain rc cerr st w1 where
    z: "zoo_wexists rt (handle (conns s1 ! zk)) path (Some watchId) w = ((rc, cerr, st), w1)"
    by (metis prod.exhaust)
  have "s' = s1 \<or> s' = delete_watch zk watchId s1"
    using assms(2) Done x z
    by (cases "rc = ZOK"; cases "rc = ZNONODE")
       (simp_all add: ExistsW_def forgetWatch_def split: if_splits)
  from create_maybe_forget [OF assms(1) Done [unfolded x] this] show ?thesis .
qed

lemma Close_stable:
  assumes "wf_process s" "Close rt zk s w = Done (err, s', w')"
  shows "stable_step s s'"
proof (cases "zk < length (conns s) \<and> handle (conns s ! zk) \<noteq> None")
  case False
  with assms(2) have "s' = s" by (auto simp: Close_def split: if_splits)
  with assms(1) show ?thesis by (simp add: stable_step_refl)
next
  case True
  obtain rc cerr w1 where z: "zookeeper_close rt (handle (conns s ! zk)) w = ((rc, cerr), w1)"
    by (metis prod.exhaust)
  show ?thesis
  proof (cases "closeAllWatches zk s")
    case (Panic m)
    with assms(2) True z show ?thesis by (simp add: Close_def)
  next
    case (Done s1)
    let ?s2 = "stopWatchLoop s1"
    from assms(2) True z Done
    have s': "s' = ?s2\<lparr>conns := list_update (conns ?s2) zk ((conns ?s2 ! zk)\<lparr>handle := None\<rparr>)\<rparr>"
      by (simp add: Close_def Let_def)
    have st1: "stable_step s s1" using assms(1) Done by (rule stable_closeAllWatches)
    then have wf1: "wf_process s1" by (simp add: stable_step_def)
    have f: "conns ?s2 = conns s1" "chans ?s2 = chans s1" "watchConns ?s2 = watchConns s1"
      by (simp_all add: stopWatchLoop_def Let_def)
    have "stable_step s1 s'"
      using wf1 by (rule stable_same_maps) (simp_all add: s' f map_update map_update_same)
    with st1 show ?thesis by (rule stable_step_trans)
  qed
qed

lemma loop_counter_fields [simp]:
  "conns (runWatchLoop s) = conns s" "chans (runWatchLoop s) = chans s"
  "watchConns (runWatchLoop s) = watchConns s" "watchCounter (runWatchLoop s) = watchCounter s"
  "conns (stopWatchLoop s) = conns s" "chans (stopWatchLoop s) = chans s"
  "watchConns (stopWatchLoop s) = watchConns s" "watchCounter (stopWatchLoop s) = watchCounter s"
  by (simp_all add: runWatchLoop_def stopWatchLoop_def Let_def)

lemma frame_set_sid:
  assumes "\<forall>p\<in>set (wc s zk). snd p \<noteq> ch"
  shows "frame_for ch s (s\<lparr>conns := list_update (conns s) zk
                               ((conns s ! zk)\<lparr>sessionWatchId := x\<rparr>)\<rparr>)"
proof -
  let ?s' = "s\<lparr>conns := list_update (conns s) zk ((conns s ! zk)\<lparr>sessionWatchId := x\<rparr>)\<rparr>"
  have wc': "\<And>z. wc ?s' z = wc s z"
  proof -
    fix z show "wc ?s' z = wc s z"
      by (cases "z = zk"; cases "zk < length (conns s)")
         (simp_all add: wc_def list_update_beyond)
  qed
  show ?thesis
    unfolding frame_for_def
  proof (intro conjI allI impI ballI)
    fix z p assume a: "z < length (conns ?s')" "p \<in> set (wc ?s' z)" "snd p = ch"
    then show "z < length (conns s)" by simp
    from a(2) show "p \<in> set (wc s z)" by (simp add: wc')
    from a(2,3) assms have "z \<noteq> zk" by (auto simp: wc')
    then show "sessionWatchId (conns ?s' ! z) = sessionWatchId (conns s ! z)" by simp
  qed simp_all
qed

lemma wf_set_sid:
  assumes "wf_process s"
  shows "wf_process (s\<lparr>conns := list_update (conns s) zk
                               ((conns s ! zk)\<lparr>sessionWatchId := x\<rparr>)\<rparr>)"
proof -
  let ?s' = "s\<lparr>conns := list_update (conns s) zk ((conns s ! zk)\<lparr>sessionWatchId := x\<rparr>)\<rparr>"
  have "wf_process ?s' = wf_process s"
    by (rule wf_process_cong) (simp_all add: map_update map_update_same)
  with assms show ?thesis by simp
qed

lemma dial_stable:
  assumes "wf_process s" "dial rt servers recvTimeoutNS s w = Done (r, err, s', w')"
  shows "stable_step s s'"
proof -
  let ?zk = "length (conns s)"
  let ?s0 = "s\<lparr>conns := conns s @ [\<lparr>watchChannels = [], sessionWatchId = 0, handle = None\<rparr>]\<rparr>"
  have zk0: "?zk < length (conns ?s0)" by simp
  have st0: "stable_step s ?s0"
    by (rule stable_stepI) (simp_all add: wf_new_conn [OF assms(1)] frame_new_conn)
  then have wf0: "wf_process ?s0" by (simp add: stable_step_def)
  let ?id = "watchCounter s"
  let ?nch = "length (chans s)"
  obtain s1 where c: "createWatch ?zk True ?s0 = Done (?id, ?nch, s1)"
    using createWatch_Done [OF zk0, of True] by simp
  have st1: "stable_step ?s0 s1" using wf0 c by (rule stable_createWatch)
  then have wf1: "wf_process s1" by (simp add: stable_step_def)
  have wc1: "wc s1 ?zk = [(?id, ?nch)]"
    using c by (auto simp: createWatch_Done [OF zk0] wc_def)
  have len1: "length (conns s1) = Suc ?zk" "length (chans s1) = Suc ?nch"
    using c by (auto simp: createWatch_Done [OF zk0])
  let ?s2 = "s1\<lparr>conns := list_update (conns s1) ?zk ((conns s1 ! ?zk)\<lparr>sessionWatchId := ?id\<rparr>)\<rparr>"
  have wf2: "wf_process ?s2" using wf1 by (rule wf_set_sid)
  have st2: "stable_step s ?s2"
  proof (rule stable_stepI [OF wf2])
    fix ch assume ch: "ch < length (chans s)"
    with st0 have f0: "frame_for ch s ?s0" by (simp add: stable_step_def)
    from ch st1 have f1: "frame_for ch ?s0 s1" by (simp add: stable_step_def)
    from ch have "\<forall>p\<in>set (wc s1 ?zk). snd p \<noteq> ch" by (simp add: wc1)
    then have f2: "frame_for ch s1 ?s2" by (rule frame_set_sid)
    from frame_for_trans [OF frame_for_trans [OF f0 f1] f2] show "frame_for ch s ?s2" .
  qed
  obtain h cerr w1 where z: "zookeeper_init rt servers (timeout_ms recvTimeoutNS) ?id w
      = ((h, cerr), w1)" by (metis prod.exhaust)
  show ?thesis
  proof (cases h)
    case None
    show ?thesis
    proof (cases "closeAllWatches ?zk ?s2")
      case (Panic m)
      with assms(2) c z None show ?thesis by (simp add: dial_def Let_def)
    next
      case (Done s3)
      with assms(2) c z None have "s' = s3" by (simp add: dial_def Let_def)
      with stable_closeAllWatches [OF wf2 Done] have "stable_step ?s2 s'" by simp
      with st2 show ?thesis by (rule stable_step_trans)
    qed
  next
    case (Some hd)
    let ?s3 = "?s2\<lparr>conns := list_update (conns ?s2) ?zk ((conns ?s2 ! ?zk)\<lparr>handle := Some hd\<rparr>)\<rparr>"
    from assms(2) c z Some have s': "s' = runWatchLoop ?s3" by (simp add: dial_def Let_def)
    have "stable_step ?s2 s'"
      using wf2 unfolding s'
      by (rule stable_same_maps) (simp_all add: len1 map_update)
    with st2 show ?thesis by (rule stable_step_trans)
  qed
qed

subsection \<open>Invariants of every run\<close>

lemma step_wf:
  assumes "wf_process s" "step rt c s w = Done (s', w')"
  shows "wf_process s'"
proof (cases c)
  case (Dial servers t)
  with assms(2) obtain r err where "dial rt servers t s w = Done (r, err, s', w')"
    by (auto split: outcome.splits)
  from dial_stable [OF assms(1) this] show ?thesis by (simp add: stable_step_def)
next
  case (CallClose zk)
  with assms(2) obtain err where "Close rt zk s w = Done (err, s', w')"
    by (auto split: outcome.splits)
  from Close_stable [OF assms(1) this] show ?thesis by (simp add: stable_step_def)
next
  case (CallGetW zk path)
  with assms(2) obtain r where "GetW rt zk path s w = Done (r, s', w')"
    by (auto split: outcome.splits)
  from GetW_stable [OF assms(1) this] show ?thesis by (simp add: stable_step_def)
next
  case (CallChildrenW zk path)
  with assms(2) obtain r where "ChildrenW rt zk path s w = Done (r, s', w')"
    by (auto split: outcome.splits)
  from ChildrenW_stable [OF assms(1) this] show ?thesis by (simp add: stable_step_def)
next
  case (CallExistsW zk path)
  with assms(2) obtain r where "ExistsW rt zk path s w = Done (r, s', w')"
    by (auto split: outcome.splits)
  from ExistsW_stable [OF assms(1) this] show ?thesis by (simp add: stable_step_def)
next
  case (Dispatch watchId event)
  with assms(2) have "sendEvent watchId event s = Done s'" by (auto split: outcome.splits)
  with assms(1) show ?thesis by (rule wf_sendEvent)
next
  case (Receive ch)
  with assms show ?thesis by (auto simp: wf_receive)
next
  case (Outside f)
  with assms show ?thesis by auto
qed

lemma run_wf:
  "wf_process s \<Longrightarrow> run rt cs s w = Done (s', w') \<Longrightarrow> wf_process s'"
proof (induction cs arbitrary: s w)
  case Nil
  then show ?case by simp
next
  case (Cons c cs)
  from Cons.prems(2) obtain s1 w1 where s1: "step rt c s w = Done (s1, w1)"
    and r: "run rt cs s1 w1 = Done (s', w')" by (auto split: outcome.splits)
  from Cons.IH [OF step_wf [OF Cons.prems(1) s1] r] show ?case .
qed

lemma wf_init_process: "wf_process init_process"
  by (simp add: wf_process_def init_process_def)

lemma frame_update_other_chan:
  "ch' \<noteq> ch \<Longrightarrow> frame_for ch s (s\<lparr>chans := list_update (chans s) ch' c\<rparr>)"
  by (simp add: frame_for_def wc_def)

lemma registered_chans_update [simp]:
  "registered ch (s\<lparr>chans := cs\<rparr>) = registered ch s"
  by (simp add: registered_def wc_def)

lemma sendEvent_oneshot_inv:
  assumes "wf_process s" "oneshot_inv n ch s" "sendEvent w e s = Done s'"
  shows "oneshot_inv n ch s'"
proof -
  from assms(2) have chl: "ch < length (chans s)" by (simp add: oneshot_inv_def)
  from sendEvent_Done_cases [OF assms(3)] show ?thesis
  proof (elim disjE exE conjE)
    assume "s' = s" with assms(2) show ?thesis by simp
  next
    fix zk ch'
    assume r: "reaches_send w e s zk ch'"
      and s': "s' = (if w \<noteq> sessionWatchId (conns s ! zk)
               then (delete_watch zk w s)\<lparr>chans := list_update (chans s) ch'
                      ((accepted (chans s ! ch') e)\<lparr>ch_closed := True\<rparr>)\<rparr>
               else s\<lparr>chans := list_update (chans s) ch' (accepted (chans s ! ch') e)\<rparr>)"
    from r have zk: "zk < length (conns s)" and reg: "(w, ch') \<in> set (wc s zk)"
      by (auto simp: reaches_send_def wc_def dest: map_of_SomeD)
    show ?thesis
    proof (cases "ch' = ch")
      case False
      have "frame_for ch s s'"
      proof (cases "w \<noteq> sessionWatchId (conns s ! zk)")
        case True
        have f1: "frame_for ch s (delete_watch zk w s)" using zk by (rule frame_delete_watch)
        have "frame_for ch (delete_watch zk w s)
                ((delete_watch zk w s)\<lparr>chans := list_update (chans (delete_watch zk w s)) ch'
                      ((accepted (chans s ! ch') e)\<lparr>ch_closed := True\<rparr>)\<rparr>)"
          using False by (rule frame_update_other_chan)
        with f1 s' True show ?thesis by (auto intro: frame_for_trans)
      next
        case sess: False
        with s' False show ?thesis by (simp add: frame_update_other_chan)
      qed
      with assms(2,1) show ?thesis by (rule oneshot_inv_frame)
    next
      case True
      with reg have reg': "(w, ch) \<in> set (wc s zk)" by simp
      then have "registered ch s" using zk unfolding registered_def by force
      with assms(2) have po: "pending_oneshot ch s" and n: "ch_sent (chans s ! ch) = n"
        by (simp_all add: oneshot_inv_def)
      from po obtain z1 w1 where z1: "z1 < length (conns s)" "(w1, ch) \<in> set (wc s z1)"
        "w1 \<noteq> sessionWatchId (conns s ! z1)" unfolding pending_oneshot_def by blast
      from registration_unique [OF assms(1) z1(1) zk z1(2) reg'] z1(3)
      have ns: "w \<noteq> sessionWatchId (conns s ! zk)" by simp
      with s' True have s'': "s' = (delete_watch zk w s)\<lparr>chans := list_update (chans s) ch
                      ((accepted (chans s ! ch) e)\<lparr>ch_closed := True\<rparr>)\<rparr>" by simp
      have unreg: "\<not> registered ch s'"
        using unregistered_after_delete [OF assms(1) zk reg'] by (simp add: s'')
      from chl n have "ch < length (chans s')" "ch_sent (chans s' ! ch) = Suc n"
        "ch_closed (chans s' ! ch)" by (simp_all add: s'' accepted_def)
      with unreg show ?thesis by (simp add: oneshot_inv_def)
    qed
  qed
qed

lemma step_oneshot_inv:
  assumes "wf_process s" "oneshot_inv n ch s" "step rt c s w = Done (s', w')"
  shows "oneshot_inv n ch s'"
proof -
  from assms(2) have chl: "ch < length (chans s)" by (simp add: oneshot_inv_def)
  have stable: "stable_step s s' \<Longrightarrow> oneshot_inv n ch s'"
    using oneshot_inv_frame [OF assms(2,1)] chl by (simp add: stable_step_def)
  show ?thesis
  proof (cases c)
    case (Dial servers t)
    with assms(3) obtain r err where "dial rt servers t s w = Done (r, err, s', w')"
      by (auto split: outcome.splits)
    from stable [OF dial_stable [OF assms(1) this]] show ?thesis .
  next
    case (CallClose zk)
    with assms(3) obtain err where "Close rt zk s w = Done (err, s', w')"
      by (auto split: outcome.splits)
    from stable [OF Close_stable [OF assms(1) this]] show ?thesis .
  next
    case (CallGetW zk path)
    with assms(3) obtain r where "GetW rt zk path s w = Done (r, s', w')"
      by (auto split: outcome.splits)
    from stable [OF GetW_stable [OF assms(1) this]] show ?thesis .
  next
    case (CallChildrenW zk path)
    with assms(3) obtain r where "ChildrenW rt zk path s w = Done (r, s', w')"
      by (auto split: outcome.splits)
    from stable [OF ChildrenW_stable [OF assms(1) this]] show ?thesis .
  next
    case (CallExistsW zk path)
    with assms(3) obtain r where "ExistsW rt zk path s w = Done (r, s', w')"
      by (auto split: outcome.splits)
    from stable [OF ExistsW_stable [OF assms(1) this]] show ?thesis .
  next
    case (Dispatch watchId event)
    with assms(3) have "sendEvent watchId event s = Done s'" by (auto split: outcome.splits)
    from sendEvent_oneshot_inv [OF assms(1,2) this] show ?thesis .
  next
    case (Receive ch')
    with assms(3) have "s' = receive ch' s" by simp
    with oneshot_inv_frame [OF assms(2,1) frame_receive] show ?thesis by simp
  next
    case (Outside f)
    with assms show ?thesis by auto
  qed
qed

lemma run_oneshot_inv:
  "wf_process s \<Longrightarrow> oneshot_inv n ch s \<Longrightarrow> run rt cs s w = Done (s', w')
   \<Longrightarrow> oneshot_inv n ch s'"
proof (induction cs arbitrary: s w)
  case Nil
  then show ?case by simp
next
  case (Cons c cs)
  from Cons.prems(3) obtain s1 w1 where s1: "step rt c s w = Done (s1, w1)"
    and r: "run rt cs s1 w1 = Done (s', w')" by (auto split: outcome.splits)
  from Cons.IH [OF step_wf [OF Cons.prems(1) s1] step_oneshot_inv [OF Cons.prems(1,2) s1] r]
  show ?case .
qed

subsection \<open>One-shot watches are retired, the session watch is kept\<close>

lemma sendEvent_session_pending:
  assumes "wf_process s" "session_pending zk ch s" "sendEvent w e s = Done s'"
  shows "session_pending zk ch s'
         \<and> sessionWatchId (conns s' ! zk) = sessionWatchId (conns s ! zk)"
proof -
  let ?sid = "sessionWatchId (conns s ! zk)"
  from assms(2) have zk: "zk < length (conns s)"
    and m1: "map_of (watchConns s) ?sid = Some zk"
    and m2: "map_of (wc s zk) ?sid = Some ch"
    and chl: "ch < length (chans s)" and op: "\<not> ch_closed (chans s ! ch)"
    by (simp_all add: session_pending_def)
  from m2 have reg: "(?sid, ch) \<in> set (wc s zk)" by (rule map_of_SomeD)
  from sendEvent_Done_cases [OF assms(3)] show ?thesis
  proof (elim disjE exE conjE)
    assume "s' = s" with assms(2) show ?thesis by simp
  next
    fix zk' ch'
    assume r: "reaches_send w e s zk' ch'"
      and s': "s' = (if w \<noteq> sessionWatchId (conns s ! zk')
               then (delete_watch zk' w s)\<lparr>chans := list_update (chans s) ch'
                      ((accepted (chans s ! ch') e)\<lparr>ch_closed := True\<rparr>)\<rparr>
               else s\<lparr>chans := list_update (chans s) ch' (accepted (chans s ! ch') e)\<rparr>)"
    from r have zk': "zk' < length (conns s)" and reg': "(w, ch') \<in> set (wc s zk')"
      and l: "map_of (watchConns s) w = Some zk'"
      by (auto simp: reaches_send_def wc_def dest: map_of_SomeD)
    show ?thesis
    proof (cases "w \<noteq> sessionWatchId (conns s ! zk')")
      case False
      with s' have s'': "s' = s\<lparr>chans := list_update (chans s) ch' (accepted (chans s ! ch') e)\<rparr>"
        by simp
      have "ch_closed (chans s' ! ch) = ch_closed (chans s ! ch)"
        using chl by (cases "ch' = ch") (simp_all add: s'' accepted_def)
      with zk m1 m2 chl op show ?thesis
        by (simp add: session_pending_def s'' wc_def)
    next
      case True
      with s' have s'': "s' = (delete_watch zk' w s)\<lparr>chans := list_update (chans s) ch'
                      ((accepted (chans s ! ch') e)\<lparr>ch_closed := True\<rparr>)\<rparr>" by simp
      have ne: "w \<noteq> ?sid"
      proof
        assume "w = ?sid"
        with l m1 have "zk' = zk" by simp
        with True \<open>w = ?sid\<close> show False by simp
      qed
      have nch: "ch' \<noteq> ch"
      proof
        assume "ch' = ch"
        with registration_unique [OF assms(1) zk' zk _ reg, of w] reg' ne show False by simp
      qed
      have sid: "sessionWatchId (conns s' ! zk) = ?sid"
        using zk zk' by (simp add: s'' nth_list_update)
      have wc': "wc s' zk = (if zk = zk' then AList.delete w (wc s zk) else wc s zk)"
        using zk zk' by (simp add: s'' wc_def nth_list_update)
      have "map_of (wc s' zk) ?sid = Some ch"
      proof (cases "zk = zk'")
        case True
        have "wc s' zk = AList.delete w (wc s zk)" using zk True by (simp add: s'' wc_def)
        with ne m2 show ?thesis by (simp add: delete_conv')
      next
        case False
        with m2 show ?thesis by (simp add: wc')
      qed
      moreover from ne have "map_of (watchConns s') ?sid = Some zk"
        by (simp add: s'' m1)
      moreover from nch chl op have "ch < length (chans s')" "\<not> ch_closed (chans s' ! ch)"
        by (simp_all add: s'')
      moreover from zk have "zk < length (conns s')" by (simp add: s'')
      ultimately show ?thesis by (simp add: session_pending_def sid)
    qed
  qed
qed

lemma watchLoop_session_pending:
  "wf_process s \<Longrightarrow> session_pending zk ch s \<Longrightarrow> watchLoop ns s = Done s'
   \<Longrightarrow> session_pending zk ch s'
       \<and> sessionWatchId (conns s' ! zk) = sessionWatchId (conns s ! zk)"
proof (induction ns arbitrary: s)
  case Nil
  then show ?case by simp
next
  case (Cons n ns)
  obtain w e where n: "n = (w, e)" by (cases n)
  with Cons.prems(3) obtain s1 where s1: "sendEvent w e s = Done s1"
    and r: "watchLoop ns s1 = Done s'" by (auto split: outcome.splits)
  from sendEvent_session_pending [OF Cons.prems(1,2) s1]
  have p1: "session_pending zk ch s1"
    and i1: "sessionWatchId (conns s1 ! zk) = sessionWatchId (conns s ! zk)" by simp_all
  from Cons.IH [OF wf_sendEvent [OF Cons.prems(1) s1] p1 r] i1 show ?case by simp
qed

lemma pending_oneshot_inv:
  assumes "wf_process s" "pending_oneshot ch s"
  shows "oneshot_inv (ch_sent (chans s ! ch)) ch s"
proof -
  from assms(2) obtain zk w where zk: "zk < length (conns s)" and r: "(w, ch) \<in> set (wc s zk)"
    unfolding pending_oneshot_def by blast
  from r have i: "ch \<in> snd ` set (wc s zk)" by force
  with zk have "registered ch s" unfolding registered_def by blast
  with wf_valid [OF assms(1) zk i] assms(2) show ?thesis by (simp add: oneshot_inv_def)
qed

subsection \<open>Ids below the counter\<close>

lemma counter_less_succ:
  fixes c :: uintptr
  assumes "c \<noteq> - 1"
  shows "c < c + 1"
proof -
  from assms have "1 + c \<noteq> 0" by (simp add: add_eq_0_iff)
  from unatSuc [OF this] show ?thesis by (simp add: word_less_nat_alt add.commute)
qed

lemma below_succ:
  fixes c :: uintptr
  assumes "c \<noteq> - 1" "x < c"
  shows "x < c + 1"
  using counter_less_succ [OF assms(1)] assms(2) by simp

lemma unat_counter_succ:
  fixes c :: uintptr
  assumes "unat c + 1 < 2 ^ 64"
  shows "c \<noteq> - 1" and "unat (c + 1) = Suc (unat c)"
proof -
  show "c \<noteq> - 1"
  proof
    assume "c = - 1"
    then have "unat c = 2 ^ 64 - 1"
      by (simp add: unsigned_minus_1_eq_mask mask_eq_exp_minus_1)
    with assms show False by simp
  qed
  then have "1 + c \<noteq> 0" by (simp add: add_eq_0_iff)
  from unatSuc [OF this] show "unat (c + 1) = Suc (unat c)" by (simp add: add.commute)
qed

lemma in_set_update: "(k, v) \<in> set (AList.update k v al)"
  by (induction al) auto

lemma map_of_filter_keys:
  "map_of (filter (\<lambda>p. fst p \<notin> K) al) k = (if k \<in> K then None else map_of al k)"
  by (induction al) auto

lemma ids_owned_key_below:
  "ids_owned s \<Longrightarrow> map_of (watchConns s) k = Some z \<Longrightarrow> k < watchCounter s"
  by (auto simp: ids_owned_def dest!: map_of_SomeD)

lemma ids_owned_wc:
  "ids_owned s \<Longrightarrow> z < length (conns s) \<Longrightarrow> p \<in> set (wc s z)
   \<Longrightarrow> map_of (watchConns s) (fst p) = Some z"
  by (simp add: ids_owned_def)

lemma createWatch_state:
  assumes "createWatch zk session s = Done (watchId, watchChannel, s')"
  shows "zk < length (conns s)" and "watchId = watchCounter s"
    and "watchChannel = length (chans s)"
    and "chans s' = chans s @ [new_chan (if session then 32 else 1)]"
    and "watchCounter s' = watchCounter s + 1"
    and "watchConns s' = AList.update (watchCounter s) zk (watchConns s)"
    and "length (conns s') = length (conns s)"
    and "\<And>z. wc s' z = (if z = zk then AList.update (watchCounter s) (length (chans s)) (wc s zk)
                          else wc s z)"
    and "\<And>z. sessionWatchId (conns s' ! z) = sessionWatchId (conns s ! z)"
    and "\<And>z. handle (conns s' ! z) = handle (conns s ! z)"
proof -
  show zk: "zk < length (conns s)"
    using assms by (cases "zk < length (conns s)") (simp_all add: createWatch_Panic)
  from assms have s': "s' = s\<lparr>chans := chans s @ [new_chan (if session then 32 else 1)],
         watchCounter := watchCounter s + 1,
         conns := list_update (conns s) zk
            ((conns s ! zk)\<lparr>watchChannels :=
                AList.update (watchCounter s) (length (chans s)) (watchChannels (conns s ! zk))\<rparr>),
         watchConns := AList.update (watchCounter s) zk (watchConns s)\<rparr>"
    and i: "watchId = watchCounter s" "watchChannel = length (chans s)"
    by (auto simp: createWatch_Done [OF zk])
  from i show "watchId = watchCounter s" "watchChannel = length (chans s)" by simp_all
  show "chans s' = chans s @ [new_chan (if session then 32 else 1)]"
    "watchCounter s' = watchCounter s + 1"
    "watchConns s' = AList.update (watchCounter s) zk (watchConns s)"
    "length (conns s') = length (conns s)" by (simp_all add: s')
  fix z
  show "wc s' z = (if z = zk then AList.update (watchCounter s) (length (chans s)) (wc s zk)
                          else wc s z)"
    using zk by (simp add: s' wc_def nth_list_update)
  show "sessionWatchId (conns s' ! z) = sessionWatchId (conns s ! z)"
    using zk by (simp add: s' nth_list_update)
  show "handle (conns s' ! z) = handle (conns s ! z)"
    using zk by (simp add: s' nth_list_update)
qed

lemma createWatch_ids_owned:
  assumes "ids_owned s" "watchCounter s \<noteq> - 1"
    "createWatch zk session s = Done (watchId, watchChannel, s')"
  shows "ids_owned s'"
proof -
  note st = createWatch_state [OF assms(3)]
  let ?c = "watchCounter s"
  have lt: "?c < ?c + 1" using assms(2) by (rule counter_less_succ)
  show ?thesis
    unfolding ids_owned_def
  proof (intro conjI ballI allI impI)
    fix p assume "p \<in> set (watchConns s')"
    then have "p = (?c, zk) \<or> p \<in> set (watchConns s)"
      using set_update_subset [of ?c zk "watchConns s"] by (auto simp: st(6))
    then show "fst p < watchCounter s'"
    proof
      assume "p = (?c, zk)" with lt show ?thesis by (simp add: st(5))
    next
      assume "p \<in> set (watchConns s)"
      with assms(1) have "fst p < ?c" by (simp add: ids_owned_def)
      with below_succ [OF assms(2)] show ?thesis by (simp add: st(5))
    qed
  next
    fix z p assume z: "z < length (conns s')" and p: "p \<in> set (wc s' z)"
    from z have z0: "z < length (conns s)" by (simp add: st(7))
    from p have "(z = zk \<and> p = (?c, length (chans s))) \<or> p \<in> set (wc s z)"
      using set_update_subset [of ?c "length (chans s)" "wc s zk"]
      by (cases "z = zk") (auto simp: st(8))
    then show "map_of (watchConns s') (fst p) = Some z"
    proof
      assume "z = zk \<and> p = (?c, length (chans s))"
      then show ?thesis by (simp add: st(6) update_conv')
    next
      assume "p \<in> set (wc s z)"
      from ids_owned_wc [OF assms(1) z0 this]
      have m: "map_of (watchConns s) (fst p) = Some z" .
      from ids_owned_key_below [OF assms(1) this] have "fst p \<noteq> ?c" by auto
      with m show ?thesis by (simp add: st(6) update_conv')
    qed
  qed
qed

lemma createWatch_sids_below:
  assumes "sids_below s" "watchCounter s \<noteq> - 1"
    "createWatch zk session s = Done (watchId, watchChannel, s')"
  shows "sids_below s'"
proof -
  note st = createWatch_state [OF assms(3)]
  show ?thesis
    unfolding sids_below_def
  proof (intro allI impI)
    fix z assume "z < length (conns s')"
    with assms(1) have "sessionWatchId (conns s ! z) < watchCounter s"
      by (simp add: sids_below_def st(7))
    with below_succ [OF assms(2)] show "sessionWatchId (conns s' ! z) < watchCounter s'"
      by (simp add: st(5,9))
  qed
qed

lemma createWatch_session_pending:
  assumes "ids_owned s" "session_pending zk ch s"
    "createWatch zk' session s = Done (watchId, watchChannel, s')"
  shows "session_pending zk ch s'"
    and "sessionWatchId (conns s' ! zk) = sessionWatchId (conns s ! zk)"
proof -
  note st = createWatch_state [OF assms(3)]
  let ?sid = "sessionWatchId (conns s ! zk)"
  from assms(2) have zk: "zk < length (conns s)"
    and m1: "map_of (watchConns s) ?sid = Some zk"
    and m2: "map_of (wc s zk) ?sid = Some ch"
    and chl: "ch < length (chans s)" and op: "\<not> ch_closed (chans s ! ch)"
    by (simp_all add: session_pending_def)
  from ids_owned_key_below [OF assms(1) m1] have ne: "?sid \<noteq> watchCounter s" by auto
  show sid: "sessionWatchId (conns s' ! zk) = ?sid" by (rule st(9))
  have "map_of (watchConns s') ?sid = Some zk" using ne m1 by (simp add: st(6) update_conv')
  moreover have "map_of (wc s' zk) ?sid = Some ch"
    using ne m2 by (cases "zk = zk'") (simp_all add: st(8) update_conv')
  moreover have "ch < length (chans s')" "\<not> ch_closed (chans s' ! ch)"
    using chl op by (simp_all add: st(4) nth_append)
  ultimately show "session_pending zk ch s'"
    using zk by (simp add: session_pending_def sid st(7))
qed

lemma delete_watch_state:
  assumes "zk < length (conns s)"
  shows "\<And>z. wc (delete_watch zk w s) z = (if z = zk then AList.delete w (wc s zk) else wc s z)"
    and "\<And>z. sessionWatchId (conns (delete_watch zk w s) ! z) = sessionWatchId (conns s ! z)"
    and "\<And>z. handle (conns (delete_watch zk w s) ! z) = handle (conns s ! z)"
    and "length (conns (delete_watch zk w s)) = length (conns s)"
  using assms by (simp_all add: wc_def nth_list_update)

lemma delete_watch_ids_owned:
  assumes "ids_owned s" "zk < length (conns s)"
    "map_of (watchConns s) w = Some zk \<or> map_of (watchConns s) w = None"
  shows "ids_owned (delete_watch zk w s)"
proof -
  note st = delete_watch_state [OF assms(2), of w]
  show ?thesis
    unfolding ids_owned_def
  proof (intro conjI ballI allI impI)
    fix p assume "p \<in> set (watchConns (delete_watch zk w s))"
    then have "p \<in> set (watchConns s)" by (simp add: set_delete)
    with assms(1) show "fst p < watchCounter (delete_watch zk w s)"
      by (simp add: ids_owned_def)
  next
    fix z p assume z: "z < length (conns (delete_watch zk w s))"
      and p: "p \<in> set (wc (delete_watch zk w s) z)"
    from z have z0: "z < length (conns s)" by simp
    from p have p0: "p \<in> set (wc s z)" by (cases "z = zk") (simp_all add: st(1) set_delete)
    from ids_owned_wc [OF assms(1) z0 p0] have m: "map_of (watchConns s) (fst p) = Some z" .
    have "fst p \<noteq> w"
    proof (cases "z = zk")
      case True
      with p show ?thesis by (simp add: st(1) set_delete)
    next
      case False
      with m assms(3) show ?thesis by auto
    qed
    with m show "map_of (watchConns (delete_watch zk w s)) (fst p) = Some z"
      by (simp add: delete_conv')
  qed
qed

lemma delete_watch_sids_below:
  assumes "sids_below s" "zk < length (conns s)"
  shows "sids_below (delete_watch zk w s)"
  using assms(1) delete_watch_state(2,4) [OF assms(2), of w]
  by (simp add: sids_below_def del: delete_watch_fields(4))

lemma delete_watch_session_pending:
  assumes "session_pending zk ch s" "zk' < length (conns s)"
    "w \<noteq> sessionWatchId (conns s ! zk)"
  shows "session_pending zk ch (delete_watch zk' w s)"
    and "sessionWatchId (conns (delete_watch zk' w s) ! zk) = sessionWatchId (conns s ! zk)"
proof -
  note st = delete_watch_state [OF assms(2), of w]
  let ?sid = "sessionWatchId (conns s ! zk)"
  from assms(1) have zk: "zk < length (conns s)"
    and m1: "map_of (watchConns s) ?sid = Some zk"
    and m2: "map_of (wc s zk) ?sid = Some ch"
    and chl: "ch < length (chans s)" and op: "\<not> ch_closed (chans s ! ch)"
    by (simp_all add: session_pending_def)
  show sid: "sessionWatchId (conns (delete_watch zk' w s) ! zk) = ?sid" by (rule st(2))
  have "map_of (watchConns (delete_watch zk' w s)) ?sid = Some zk"
    using assms(3) m1 by (simp add: delete_conv')
  moreover have "map_of (wc (delete_watch zk' w s) zk) ?sid = Some ch"
    using assms(3) m2 by (cases "zk = zk'") (simp_all add: st(1) delete_conv')
  ultimately show "session_pending zk ch (delete_watch zk' w s)"
    using zk chl op st(4) by (simp add: session_pending_def sid del: delete_watch_fields(4))
qed

lemma ids_allocated_cong:
  assumes "map watchChannels (conns s') = map watchChannels (conns s)"
    "map sessionWatchId (conns s') = map sessionWatchId (conns s)"
    "watchConns s' = watchConns s" "watchCounter s' = watchCounter s"
  shows "ids_owned s' = ids_owned s" and "sids_below s' = sids_below s"
    and "ids_allocated s' = ids_allocated s"
proof -
  from assms(1) have len: "length (conns s') = length (conns s)" by (rule map_eq_imp_length_eq)
  have wc': "wc s' z = wc s z" if "z < length (conns s)" for z
  proof -
    from that have "map watchChannels (conns s') ! z = map watchChannels (conns s) ! z"
      using assms(1) by simp
    with that len show ?thesis by (simp add: wc_def)
  qed
  have sid: "sessionWatchId (conns s' ! z) = sessionWatchId (conns s ! z)"
    if "z < length (conns s)" for z
  proof -
    from that have "map sessionWatchId (conns s') ! z = map sessionWatchId (conns s) ! z"
      using assms(2) by simp
    with that len show ?thesis by simp
  qed
  show o: "ids_owned s' = ids_owned s"
    by (simp add: ids_owned_def len wc' assms(3,4))
  show b: "sids_below s' = sids_below s"
    by (simp add: sids_below_def len sid assms(4))
  from o b show "ids_allocated s' = ids_allocated s" by (simp add: ids_allocated_def)
qed

lemma session_pending_cong:
  assumes "map watchChannels (conns s') = map watchChannels (conns s)"
    "map sessionWatchId (conns s') = map sessionWatchId (conns s)"
    "watchConns s' = watchConns s" "length (chans s') = length (chans s)"
    "map ch_closed (chans s') = map ch_closed (chans s)"
    "session_pending zk ch s"
  shows "session_pending zk ch s'"
    and "sessionWatchId (conns s' ! zk) = sessionWatchId (conns s ! zk)"
proof -
  from assms(1) have len: "length (conns s') = length (conns s)" by (rule map_eq_imp_length_eq)
  from assms(6) have zk: "zk < length (conns s)" and chl: "ch < length (chans s)"
    by (simp_all add: session_pending_def)
  have "map watchChannels (conns s') ! zk = map watchChannels (conns s) ! zk"
    using assms(1) by simp
  with zk len have wc': "wc s' zk = wc s zk" by (simp add: wc_def)
  have "map sessionWatchId (conns s') ! zk = map sessionWatchId (conns s) ! zk"
    using assms(2) by simp
  with zk len show sid: "sessionWatchId (conns s' ! zk) = sessionWatchId (conns s ! zk)"
    by simp
  have "map ch_closed (chans s') ! ch = map ch_closed (chans s) ! ch" using assms(5) by simp
  with chl assms(4) have "ch_closed (chans s' ! ch) = ch_closed (chans s ! ch)" by simp
  with assms(6) show "session_pending zk ch s'"
    by (simp add: session_pending_def len wc' sid assms(3,4))
qed

lemma ids_allocated_chans_update [simp]:
  "ids_owned (s\<lparr>chans := cs\<rparr>) = ids_owned s"
  "sids_below (s\<lparr>chans := cs\<rparr>) = sids_below s"
  "ids_allocated (s\<lparr>chans := cs\<rparr>) = ids_allocated s"
  by (simp_all add: ids_owned_def sids_below_def ids_allocated_def wc_def)

lemma sendEvent_ids_allocated:
  assumes "ids_allocated s" "sendEvent w e s = Done s'"
  shows "ids_allocated s'"
proof -
  from sendEvent_Done_cases [OF assms(2)] show ?thesis
  proof (elim disjE exE conjE)
    assume "s' = s" with assms(1) show ?thesis by simp
  next
    fix zk ch
    assume r: "reaches_send w e s zk ch"
      and s': "s' = (if w \<noteq> sessionWatchId (conns s ! zk)
               then (delete_watch zk w s)\<lparr>chans := list_update (chans s) ch
                      ((accepted (chans s ! ch) e)\<lparr>ch_closed := True\<rparr>)\<rparr>
               else s\<lparr>chans := list_update (chans s) ch (accepted (chans s ! ch) e)\<rparr>)"
    from r have zk: "zk < length (conns s)" and m: "map_of (watchConns s) w = Some zk"
      by (simp_all add: reaches_send_def)
    from assms(1) have "ids_owned (delete_watch zk w s)" "sids_below (delete_watch zk w s)"
      using zk m by (simp_all add: ids_allocated_def delete_watch_ids_owned
          delete_watch_sids_below)
    then have "ids_allocated (delete_watch zk w s)" by (simp add: ids_allocated_def)
    with assms(1) show ?thesis by (simp add: s')
  qed
qed

lemma receive_state:
  "conns (receive ch' s) = conns s" "watchConns (receive ch' s) = watchConns s"
  "watchCounter (receive ch' s) = watchCounter s"
  "length (chans (receive ch' s)) = length (chans s)"
  "map ch_closed (chans (receive ch' s)) = map ch_closed (chans s)"
proof -
  show "conns (receive ch' s) = conns s" "watchConns (receive ch' s) = watchConns s"
    "watchCounter (receive ch' s) = watchCounter s"
    "length (chans (receive ch' s)) = length (chans s)"
    by (simp_all add: receive_def split: option.splits)
  show "map ch_closed (chans (receive ch' s)) = map ch_closed (chans s)"
  proof (cases "ch' < length (chans s)")
    case False
    then show ?thesis by (simp add: receive_def)
  next
    case True
    show ?thesis
    proof (cases "recv (chans s ! ch')")
      case None
      with True show ?thesis by (simp add: receive_def)
    next
      case (Some r)
      obtain e ok c' where r: "r = (e, ok, c')" by (cases r)
      with Some have "ch_closed c' = ch_closed (chans s ! ch')"
        by (auto simp: recv_def split: list.splits if_splits)
      with Some r True show ?thesis
        by (simp add: receive_def map_update list_update_same_conv)
    qed
  qed
qed

lemma closed_all_state:
  assumes "closed_all zk al s s'" "zk < length (conns s)"
  shows "length (conns s') = length (conns s)"
    and "\<And>z. wc s' z = (if z = zk then filter (\<lambda>p. fst p \<notin> fst ` set al) (wc s zk)
                          else wc s z)"
    and "\<And>z. sessionWatchId (conns s' ! z) = sessionWatchId (conns s ! z)"
    and "watchConns s' = filter (\<lambda>p. fst p \<notin> fst ` set al) (watchConns s)"
    and "watchCounter s' = watchCounter s"
    and "length (chans s') = length (chans s)"
    and "\<And>c. c < length (chans s) \<Longrightarrow> c \<notin> snd ` set al \<Longrightarrow> chans s' ! c = chans s ! c"
proof -
  have c: "conns s' = list_update (conns s) zk
         ((conns s ! zk)\<lparr>watchChannels := filter (\<lambda>p. fst p \<notin> fst ` set al) (wc s zk)\<rparr>)"
    and ch: "chans s' = map (\<lambda>c. if c \<in> snd ` set al then (chans s ! c)\<lparr>ch_closed := True\<rparr>
                               else chans s ! c) [0..<length (chans s)]"
    using assms(1) by (simp_all add: closed_all_def)
  show "length (conns s') = length (conns s)" by (simp add: c)
  show "watchConns s' = filter (\<lambda>p. fst p \<notin> fst ` set al) (watchConns s)"
    "watchCounter s' = watchCounter s"
    using assms(1) by (simp_all add: closed_all_def)
  show "length (chans s') = length (chans s)" by (simp add: ch)
  fix z
  show "wc s' z = (if z = zk then filter (\<lambda>p. fst p \<notin> fst ` set al) (wc s zk) else wc s z)"
    using assms(2) by (simp add: c wc_def nth_list_update)
  show "sessionWatchId (conns s' ! z) = sessionWatchId (conns s ! z)"
    using assms(2) by (simp add: c nth_list_update)
next
  fix c assume "c < length (chans s)" "c \<notin> snd ` set al"
  with assms(1) show "chans s' ! c = chans s ! c" by (simp add: closed_all_def)
qed

lemma closeAllWatches_ids_allocated:
  assumes "wf_process s" "ids_allocated s" "closeAllWatches zk s = Done s'"
  shows "ids_allocated s'"
proof -
  have zk: "zk < length (conns s)"
    using assms(3) by (cases "zk < length (conns s)") (simp_all add: closeAllWatches_def)
  from closeAllWatches_Done [OF assms(1) zk] assms(3)
  have c: "closed_all zk (wc s zk) s s'" by auto
  note st = closed_all_state [OF c zk]
  from assms(2) have o: "ids_owned s" and b: "sids_below s" by (simp_all add: ids_allocated_def)
  have "ids_owned s'"
    unfolding ids_owned_def
  proof (intro conjI ballI allI impI)
    fix p assume "p \<in> set (watchConns s')"
    then have "p \<in> set (watchConns s)" by (simp add: st(4))
    with o show "fst p < watchCounter s'" by (simp add: ids_owned_def st(5))
  next
    fix z p assume z: "z < length (conns s')" and p: "p \<in> set (wc s' z)"
    from z have z0: "z < length (conns s)" by (simp add: st(1))
    show "map_of (watchConns s') (fst p) = Some z"
    proof (cases "z = zk")
      case True
      with p show ?thesis by (simp add: st(2))
    next
      case False
      with p have p0: "p \<in> set (wc s z)" by (simp add: st(2))
      from ids_owned_wc [OF o z0 p0] have m: "map_of (watchConns s) (fst p) = Some z" .
      have "fst p \<notin> fst ` set (wc s zk)"
      proof
        assume "fst p \<in> fst ` set (wc s zk)"
        then obtain q where q: "q \<in> set (wc s zk)" "fst q = fst p" by auto
        from ids_owned_wc [OF o zk q(1)] q(2) m False show False by simp
      qed
      with m show ?thesis by (simp add: st(4) map_of_filter_keys)
    qed
  qed
  moreover from b have "sids_below s'" by (simp add: sids_below_def st(1,3,5))
  ultimately show ?thesis by (simp add: ids_allocated_def)
qed

lemma closeAllWatches_session_pending:
  assumes "wf_process s" "ids_allocated s" "closeAllWatches zk' s = Done s'"
    "session_pending zk ch s" "zk \<noteq> zk'"
  shows "session_pending zk ch s'"
    and "sessionWatchId (conns s' ! zk) = sessionWatchId (conns s ! zk)"
proof -
  have zk': "zk' < length (conns s)"
    using assms(3) by (cases "zk' < length (conns s)") (simp_all add: closeAllWatches_def)
  from closeAllWatches_Done [OF assms(1) zk'] assms(3)
  have c: "closed_all zk' (wc s zk') s s'" by auto
  note st = closed_all_state [OF c zk']
  from assms(2) have o: "ids_owned s" by (simp add: ids_allocated_def)
  let ?sid = "sessionWatchId (conns s ! zk)"
  from assms(4) have zk: "zk < length (conns s)"
    and m1: "map_of (watchConns s) ?sid = Some zk"
    and m2: "map_of (wc s zk) ?sid = Some ch"
    and chl: "ch < length (chans s)" and op: "\<not> ch_closed (chans s ! ch)"
    by (simp_all add: session_pending_def)
  show sid: "sessionWatchId (conns s' ! zk) = ?sid" by (rule st(3))
  have nk: "?sid \<notin> fst ` set (wc s zk')"
  proof
    assume "?sid \<in> fst ` set (wc s zk')"
    then obtain q where q: "q \<in> set (wc s zk')" "fst q = ?sid" by auto
    from ids_owned_wc [OF o zk' q(1)] q(2) m1 assms(5) show False by simp
  qed
  have nc: "ch \<notin> snd ` set (wc s zk')"
  proof
    assume a: "ch \<in> snd ` set (wc s zk')"
    from m2 have "(?sid, ch) \<in> set (wc s zk)" by (rule map_of_SomeD)
    then have "ch \<in> snd ` set (wc s zk)" by force
    with a wf_disjoint [OF assms(1) zk zk' assms(5)] show False by blast
  qed
  have "map_of (watchConns s') ?sid = Some zk" using nk m1 by (simp add: st(4) map_of_filter_keys)
  moreover have "map_of (wc s' zk) ?sid = Some ch" using assms(5) m2 by (simp add: st(2))
  moreover have "ch < length (chans s')" "\<not> ch_closed (chans s' ! ch)"
    using chl op st(7) [OF chl nc] by (simp_all add: st(6))
  ultimately show "session_pending zk ch s'"
    using zk by (simp add: session_pending_def sid st(1))
qed

lemma create_maybe_forget_ids:
  assumes "ids_allocated s" "createWatch zk' session s = Done (watchId, watchChannel, s1)"
    "s' = s1 \<or> s' = delete_watch zk' watchId s1"
  shows "watchCounter s' = watchCounter s + 1"
    and "watchCounter s \<noteq> - 1 \<Longrightarrow> ids_allocated s'"
    and "session_pending zk ch s \<Longrightarrow> session_pending zk ch s'
           \<and> sessionWatchId (conns s' ! zk) = sessionWatchId (conns s ! zk)"
proof -
  note st = createWatch_state [OF assms(2)]
  from assms(1) have o: "ids_owned s" and b: "sids_below s" by (simp_all add: ids_allocated_def)
  have zk1: "zk' < length (conns s1)" using st(1) by (simp add: st(7))
  from assms(3) show "watchCounter s' = watchCounter s + 1" by (auto simp: st(5))
  have m: "map_of (watchConns s1) watchId = Some zk'" by (simp add: st(2,6) update_conv')
  {
    assume n: "watchCounter s \<noteq> - 1"
    from createWatch_ids_owned [OF o n assms(2)] createWatch_sids_below [OF b n assms(2)]
    have o1: "ids_owned s1" and b1: "sids_below s1" .
    from delete_watch_ids_owned [OF o1 zk1, of watchId] delete_watch_sids_below [OF b1 zk1] m
    have "ids_allocated (delete_watch zk' watchId s1)" by (simp add: ids_allocated_def)
    with o1 b1 assms(3) show "ids_allocated s'" by (auto simp: ids_allocated_def)
  }
  {
    assume p: "session_pending zk ch s"
    let ?sid = "sessionWatchId (conns s ! zk)"
    from createWatch_session_pending [OF o p assms(2)]
    have p1: "session_pending zk ch s1" and i1: "sessionWatchId (conns s1 ! zk) = ?sid" .
    from p have "map_of (watchConns s) ?sid = Some zk" by (simp add: session_pending_def)
    from ids_owned_key_below [OF o this] have "watchId \<noteq> sessionWatchId (conns s1 ! zk)"
      by (auto simp: i1 st(2))
    from delete_watch_session_pending [OF p1 zk1 this] i1
    have "session_pending zk ch (delete_watch zk' watchId s1)
          \<and> sessionWatchId (conns (delete_watch zk' watchId s1) ! zk) = ?sid" by simp
    with p1 i1 assms(3) show "session_pending zk ch s'
           \<and> sessionWatchId (conns s' ! zk) = sessionWatchId (conns s ! zk)" by auto
  }
qed

lemma GetW_cases:
  assumes "GetW rt zk path s w = Done ((dat, stat, watch, err), s', w')"
  shows "\<exists>watchId watchChannel s1. createWatch zk True s = Done (watchId, watchChannel, s1)
           \<and> (s' = s1 \<and> watch = Some watchChannel
              \<or> s' = delete_watch zk watchId s1 \<and> watch = None)"
proof (cases "createWatch zk True s")
  case (Panic m)
  with assms show ?thesis by (simp add: GetW_def)
next
  case (Done x)
  obtain watchId watchChannel s1 where x: "x = (watchId, watchChannel, s1)" by (cases x)
  obtain rc cerr buf st w1 where
    z: "zoo_wget rt (handle (conns s1 ! zk)) path (Some watchId) w = ((rc, cerr, buf, st), w1)"
    by (metis prod.exhaust)
  have "s' = s1 \<and> watch = Some watchChannel \<or> s' = delete_watch zk watchId s1 \<and> watch = None"
    using assms Done x z
    by (cases "rc = ZOK") (auto simp: GetW_def forgetWatch_def split: if_splits)
  with Done x show ?thesis by simp
qed

lemma ChildrenW_cases:
  assumes "ChildrenW rt zk path s w = Done ((children, stat, watch, err), s', w')"
  shows "\<exists>watchId watchChannel s1. createWatch zk True s = Done (watchId, watchChannel, s1)
           \<and> (s' = s1 \<and> watch = Some watchChannel
              \<or> s' = delete_watch zk watchId s1 \<and> watch = None)"
proof (cases "createWatch zk True s")
  case (Panic m)
  with assms show ?thesis by (simp add: ChildrenW_def)
next
  case (Done x)
  obtain watchId watchChannel s1 where x: "x = (watchId, watchChannel, s1)" by (cases x)
  obtain rc cerr cv st w1 where
    z: "zoo_wget_children2 rt (handle (conns s1 ! zk)) path (Some watchId) w
          = ((rc, cerr, cv, st), w1)"
    by (metis prod.exhaust)
  have "s' = s1 \<and> watch = Some watchChannel \<or> s' = delete_watch zk watchId s1 \<and> watch = None"
    using assms Done x z
    by (cases "rc = ZOK") (auto simp: ChildrenW_def forgetWatch_def Let_def split: if_splits)
  with Done x show ?thesis by simp
qed

lemma ExistsW_cases:
  assumes "ExistsW rt zk path s w = Done ((stat, watch, err), s', w')"
  shows "\<exists>watchId watchChannel s1. createWatch zk True s = Done (watchId, watchChannel, s1)
           \<and> (s' = s1 \<and> watch = Some watchChannel
              \<or> s' = delete_watch zk watchId s1 \<and> watch = None)"
proof (cases "createWatch zk True s")
  case (Panic m)
  with assms show ?thesis by (simp add: ExistsW_def)
next
  case (Done x)
  obtain watchId watchChannel s1 where x: "x = (watchId, watchChannel, s1)" by (cases x)
  obtain rc cerr st w1 where
    z: "zoo_wexists rt (handle (conns s1 ! zk)) path (Some watchId) w = ((rc, cerr, st), w1)"
    by (metis prod.exhaust)
  have "s' = s1 \<and> watch = Some watchChannel \<or> s' = delete_watch zk watchId s1 \<and> watch = None"
    using assms Done x z
    by (cases "rc = ZOK"; cases "rc = ZNONODE")
       (auto simp: ExistsW_def forgetWatch_def split: if_splits)
  with Done x show ?thesis by simp
qed

text \<open>The stream of a watch just created under a fresh id is that of a pending one-shot watch.\<close>

lemma createWatch_pending_oneshot:
  assumes "sids_below s" "createWatch zk session s = Done (watchId, watchChannel, s')"
  shows "pending_oneshot watchChannel s'" and "watchChannel < length (chans s')"
    and "ch_sent (chans s' ! watchChannel) = 0"
proof -
  note st = createWatch_state [OF assms(2)]
  from assms(1) st(1) have "sessionWatchId (conns s ! zk) < watchCounter s"
    by (simp add: sids_below_def)
  then have "watchId \<noteq> sessionWatchId (conns s' ! zk)" by (auto simp: st(2,9))
  moreover have "(watchId, watchChannel) \<in> set (wc s' zk)"
    by (simp add: st(2,3,8) in_set_update)
  moreover have "zk < length (conns s')" using st(1) by (simp add: st(7))
  ultimately show "pending_oneshot watchChannel s'" unfolding pending_oneshot_def by blast
  show "watchChannel < length (chans s')" by (simp add: st(3,4))
  show "ch_sent (chans s' ! watchChannel) = 0" by (simp add: st(3,4) new_chan_def)
qed

lemma session_pending_same:
  assumes "session_pending zk ch s" "length (conns s) \<le> length (conns s')"
    "wc s' zk = wc s zk"
    "sessionWatchId (conns s' ! zk) = sessionWatchId (conns s ! zk)"
    "watchConns s' = watchConns s" "length (chans s) \<le> length (chans s')"
    "ch_closed (chans s' ! ch) = ch_closed (chans s ! ch)"
  shows "session_pending zk ch s'"
  using assms by (simp add: session_pending_def)

lemma Close_cases:
  assumes "Close rt zk s w = Done (err, s', w')"
  shows "s' = s \<or>
     (\<exists>s1. zk < length (conns s) \<and> handle (conns s ! zk) \<noteq> None
        \<and> closeAllWatches zk s = Done s1
        \<and> s' = (stopWatchLoop s1)\<lparr>conns := list_update (conns (stopWatchLoop s1)) zk
                   ((conns (stopWatchLoop s1) ! zk)\<lparr>handle := None\<rparr>)\<rparr>)"
proof (cases "zk < length (conns s) \<and> handle (conns s ! zk) \<noteq> None")
  case False
  with assms have "s' = s" by (auto simp: Close_def split: if_splits)
  then show ?thesis by simp
next
  case True
  obtain rc cerr w1 where z: "zookeeper_close rt (handle (conns s ! zk)) w = ((rc, cerr), w1)"
    by (metis prod.exhaust)
  show ?thesis
  proof (cases "closeAllWatches zk s")
    case (Panic m)
    with assms True z show ?thesis by (simp add: Close_def)
  next
    case (Done s1)
    with assms True z show ?thesis by (simp add: Close_def Let_def)
  qed
qed

lemma Close_ids_allocated:
  assumes "wf_process s" "ids_allocated s" "Close rt zk s w = Done (err, s', w')"
  shows "ids_allocated s'" and "watchCounter s' = watchCounter s"
proof -
  from Close_cases [OF assms(3)]
  have "ids_allocated s' \<and> watchCounter s' = watchCounter s"
  proof (elim disjE exE conjE)
    assume "s' = s" with assms(2) show ?thesis by simp
  next
    fix s1
    assume c: "closeAllWatches zk s = Done s1"
      and s': "s' = (stopWatchLoop s1)\<lparr>conns := list_update (conns (stopWatchLoop s1)) zk
                   ((conns (stopWatchLoop s1) ! zk)\<lparr>handle := None\<rparr>)\<rparr>"
    from closeAllWatches_ids_allocated [OF assms(1,2) c] have a1: "ids_allocated s1" .
    have "ids_allocated s' = ids_allocated s1"
      by (rule ids_allocated_cong) (simp_all add: s' map_update map_update_same)
    with a1 closeAllWatches_counter [OF c] show ?thesis by (simp add: s')
  qed
  then show "ids_allocated s'" "watchCounter s' = watchCounter s" by simp_all
qed

lemma Close_session_pending:
  assumes "wf_process s" "ids_allocated s" "Close rt zk' s w = Done (err, s', w')"
    "session_pending zk ch s" "zk \<noteq> zk'"
  shows "session_pending zk ch s'
         \<and> sessionWatchId (conns s' ! zk) = sessionWatchId (conns s ! zk)"
proof -
  from Close_cases [OF assms(3)] show ?thesis
  proof (elim disjE exE conjE)
    assume "s' = s" with assms(4) show ?thesis by simp
  next
    fix s1
    assume c: "closeAllWatches zk' s = Done s1"
      and s': "s' = (stopWatchLoop s1)\<lparr>conns := list_update (conns (stopWatchLoop s1)) zk'
                   ((conns (stopWatchLoop s1) ! zk')\<lparr>handle := None\<rparr>)\<rparr>"
    from closeAllWatches_session_pending [OF assms(1,2) c assms(4,5)]
    have p1: "session_pending zk ch s1"
      and i1: "sessionWatchId (conns s1 ! zk) = sessionWatchId (conns s ! zk)" .
    have "session_pending zk ch s'
          \<and> sessionWatchId (conns s' ! zk) = sessionWatchId (conns s1 ! zk)"
      using session_pending_cong [of s' s1 zk ch] p1
      by (simp add: s' map_update map_update_same)
    with i1 show ?thesis by simp
  qed
qed

text \<open>Close on the connection itself retires the session watch.\<close>

lemma Close_retires_session:
  assumes "wf_process s" "session_pending zk ch s" "handle (conns s ! zk) \<noteq> None"
    "Close rt zk s w = Done (err, s', w')"
  shows "map_of (watchConns s') (sessionWatchId (conns s ! zk)) = None"
    and "wc s' zk = []" and "ch_closed (chans s' ! ch)"
    and "sessionWatchId (conns s' ! zk) = sessionWatchId (conns s ! zk)"
proof -
  let ?sid = "sessionWatchId (conns s ! zk)"
  from assms(2) have zk: "zk < length (conns s)" and m2: "map_of (wc s zk) ?sid = Some ch"
    by (simp_all add: session_pending_def)
  from m2 have reg: "(?sid, ch) \<in> set (wc s zk)" by (rule map_of_SomeD)
  obtain rc cerr w1 where z: "zookeeper_close rt (handle (conns s ! zk)) w = ((rc, cerr), w1)"
    by (metis prod.exhaust)
  from closeAllWatches_Done [OF assms(1) zk]
  obtain s1 where s1: "closeAllWatches zk s = Done s1" "closed_all zk (wc s zk) s s1" by blast
  note eff = closed_all_effects [OF s1(2) zk assms(1)]
  from assms(3,4) zk z s1(1)
  have s': "s' = (stopWatchLoop s1)\<lparr>conns := list_update (conns (stopWatchLoop s1)) zk
                   ((conns (stopWatchLoop s1) ! zk)\<lparr>handle := None\<rparr>)\<rparr>"
    by (auto simp: Close_def Let_def)
  have zk1: "zk < length (conns s1)" using zk eff(4) by simp
  from eff(5) [OF reg] show "map_of (watchConns s') ?sid = None" by (simp add: s')
  from eff(1) zk1 show "wc s' zk = []" by (simp add: s' wc_def)
  from eff(6) [OF reg] show "ch_closed (chans s' ! ch)" by (simp add: s')
  from eff(3) zk1 show "sessionWatchId (conns s' ! zk) = ?sid" by (simp add: s')
qed

lemma dial_cases:
  assumes "dial rt servers recvTimeoutNS s w = Done (r, err, s', w')"
  shows "\<exists>s1. createWatch (length (conns s)) True
                 (s\<lparr>conns := conns s @ [\<lparr>watchChannels = [], sessionWatchId = 0, handle = None\<rparr>]\<rparr>)
               = Done (watchCounter s, length (chans s), s1)
           \<and> (closeAllWatches (length (conns s))
                 (s1\<lparr>conns := list_update (conns s1) (length (conns s))
                        ((conns s1 ! length (conns s))\<lparr>sessionWatchId := watchCounter s\<rparr>)\<rparr>)
                = Done s'
              \<or> (\<exists>h. s' = runWatchLoop
                   ((s1\<lparr>conns := list_update (conns s1) (length (conns s))
                        ((conns s1 ! length (conns s))\<lparr>sessionWatchId := watchCounter s\<rparr>)\<rparr>)
                    \<lparr>conns := list_update (list_update (conns s1) (length (conns s))
                        ((conns s1 ! length (conns s))\<lparr>sessionWatchId := watchCounter s\<rparr>))
                        (length (conns s))
                        ((list_update (conns s1) (length (conns s))
                           ((conns s1 ! length (conns s))\<lparr>sessionWatchId := watchCounter s\<rparr>)
                          ! length (conns s))\<lparr>handle := Some h\<rparr>)\<rparr>)))"
proof -
  let ?zk = "length (conns s)"
  let ?s0 = "s\<lparr>conns := conns s @ [\<lparr>watchChannels = [], sessionWatchId = 0, handle = None\<rparr>]\<rparr>"
  have zk0: "?zk < length (conns ?s0)" by simp
  obtain s1 where c: "createWatch ?zk True ?s0 = Done (watchCounter s, length (chans s), s1)"
    using createWatch_Done [OF zk0, of True] by simp
  let ?s2 = "s1\<lparr>conns := list_update (conns s1) ?zk
                 ((conns s1 ! ?zk)\<lparr>sessionWatchId := watchCounter s\<rparr>)\<rparr>"
  obtain h cerr w1 where z: "zookeeper_init rt servers (timeout_ms recvTimeoutNS)
      (watchCounter s) w = ((h, cerr), w1)" by (metis prod.exhaust)
  show ?thesis
  proof (cases h)
    case None
    show ?thesis
    proof (cases "closeAllWatches ?zk ?s2")
      case (Panic m)
      with assms c z None show ?thesis by (simp add: dial_def Let_def)
    next
      case (Done s3)
      with assms c z None have "s' = s3" by (simp add: dial_def Let_def)
      with c Done show ?thesis by simp
    qed
  next
    case (Some hd)
    with assms c z have "s' = runWatchLoop
       (?s2\<lparr>conns := list_update (conns ?s2) ?zk ((conns ?s2 ! ?zk)\<lparr>handle := Some hd\<rparr>)\<rparr>)"
      by (simp add: dial_def Let_def)
    with c show ?thesis by auto
  qed
qed

lemma new_conn_wc:
  "z < length (conns s)
   \<Longrightarrow> wc (s\<lparr>conns := conns s @ [c]\<rparr>) z = wc s z"
  "wc (s\<lparr>conns := conns s @ [\<lparr>watchChannels = [], sessionWatchId = x, handle = h\<rparr>]\<rparr>)
      (length (conns s)) = []"
  by (simp_all add: wc_def nth_append)

lemma new_conn_ids_owned:
  assumes "ids_owned s"
  shows "ids_owned (s\<lparr>conns := conns s @ [\<lparr>watchChannels = [], sessionWatchId = x, handle = h\<rparr>]\<rparr>)"
  unfolding ids_owned_def
proof (intro conjI ballI allI impI)
  let ?s0 = "s\<lparr>conns := conns s @ [\<lparr>watchChannels = [], sessionWatchId = x, handle = h\<rparr>]\<rparr>"
  fix p assume "p \<in> set (watchConns ?s0)"
  with assms show "fst p < watchCounter ?s0" by (simp add: ids_owned_def)
next
  let ?s0 = "s\<lparr>conns := conns s @ [\<lparr>watchChannels = [], sessionWatchId = x, handle = h\<rparr>]\<rparr>"
  fix z p assume z: "z < length (conns ?s0)" and p: "p \<in> set (wc ?s0 z)"
  show "map_of (watchConns ?s0) (fst p) = Some z"
  proof (cases "z < length (conns s)")
    case True
    with p have "p \<in> set (wc s z)" by (simp add: new_conn_wc)
    from ids_owned_wc [OF assms True this] show ?thesis by simp
  next
    case False
    with z have "z = length (conns s)" by simp
    with p show ?thesis by (simp add: new_conn_wc)
  qed
qed

lemma set_sid_wc:
  "wc (s\<lparr>conns := list_update (conns s) zk ((conns s ! zk)\<lparr>sessionWatchId := x\<rparr>)\<rparr>) z = wc s z"
  by (cases "z = zk"; cases "zk < length (conns s)") (simp_all add: wc_def list_update_beyond)

lemma set_sid_ids_owned:
  "ids_owned (s\<lparr>conns := list_update (conns s) zk ((conns s ! zk)\<lparr>sessionWatchId := x\<rparr>)\<rparr>)
     = ids_owned s"
  by (simp add: ids_owned_def set_sid_wc)

lemma dial_invariants:
  assumes "wf_process s" "ids_allocated s" "watchCounter s \<noteq> - 1"
    "dial rt servers recvTimeoutNS s w = Done (r, err, s', w')"
  shows "watchCounter s' = watchCounter s + 1"
    and "ids_allocated s'"
    and "session_pending zk ch s \<Longrightarrow> session_pending zk ch s'
           \<and> sessionWatchId (conns s' ! zk) = sessionWatchId (conns s ! zk)"
proof -
  let ?zk = "length (conns s)"
  let ?c = "watchCounter s"
  let ?s0 = "s\<lparr>conns := conns s @ [\<lparr>watchChannels = [], sessionWatchId = 0, handle = None\<rparr>]\<rparr>"
  note n = assms(3)
  from assms(2) have o: "ids_owned s" and b: "sids_below s" by (simp_all add: ids_allocated_def)
  from dial_cases [OF assms(4)] obtain s1 where
    c: "createWatch ?zk True ?s0 = Done (?c, length (chans s), s1)"
    and br: "closeAllWatches ?zk
                 (s1\<lparr>conns := list_update (conns s1) ?zk
                        ((conns s1 ! ?zk)\<lparr>sessionWatchId := ?c\<rparr>)\<rparr>) = Done s'
              \<or> (\<exists>h. s' = runWatchLoop
                   ((s1\<lparr>conns := list_update (conns s1) ?zk
                        ((conns s1 ! ?zk)\<lparr>sessionWatchId := ?c\<rparr>)\<rparr>)
                    \<lparr>conns := list_update (list_update (conns s1) ?zk
                        ((conns s1 ! ?zk)\<lparr>sessionWatchId := ?c\<rparr>)) ?zk
                        ((list_update (conns s1) ?zk
                           ((conns s1 ! ?zk)\<lparr>sessionWatchId := ?c\<rparr>) ! ?zk)
                            \<lparr>handle := Some h\<rparr>)\<rparr>))"
    by blast
  let ?s2 = "s1\<lparr>conns := list_update (conns s1) ?zk ((conns s1 ! ?zk)\<lparr>sessionWatchId := ?c\<rparr>)\<rparr>"
  from br have br': "closeAllWatches ?zk ?s2 = Done s'
      \<or> (\<exists>h. s' = runWatchLoop (?s2\<lparr>conns := list_update (conns ?s2) ?zk
                        ((conns ?s2 ! ?zk)\<lparr>handle := Some h\<rparr>)\<rparr>))" by simp
  note st = createWatch_state [OF c]
  have len1: "length (conns s1) = Suc ?zk" by (simp add: st(7))
  have wf0: "wf_process ?s0" using assms(1) by (rule wf_new_conn)
  have wf1: "wf_process s1" using wf0 c by (rule wf_createWatch)
  have wf2: "wf_process ?s2" using wf1 by (rule wf_set_sid)
  have o0: "ids_owned ?s0" using o by (rule new_conn_ids_owned)
  have cnt2: "watchCounter ?s2 = ?c + 1" by (simp add: st(5))
  have sid2: "sessionWatchId (conns ?s2 ! z) = (if z = ?zk then ?c else sessionWatchId (conns s ! z))"
    if "z < Suc ?zk" for z
    using that st(9) [of z] by (simp add: len1 nth_list_update nth_append)
  from br' show "watchCounter s' = ?c + 1"
  proof
    assume "closeAllWatches ?zk ?s2 = Done s'"
    from closeAllWatches_counter [OF this] cnt2 show ?thesis by simp
  next
    assume "\<exists>h. s' = runWatchLoop (?s2\<lparr>conns := list_update (conns ?s2) ?zk
                        ((conns ?s2 ! ?zk)\<lparr>handle := Some h\<rparr>)\<rparr>)"
    then show ?thesis by (auto simp: st(5))
  qed
  have "watchCounter ?s0 \<noteq> - 1" using n by simp
  from createWatch_ids_owned [OF o0 this c] have o1: "ids_owned s1" .
  then have o2: "ids_owned ?s2" by (simp add: set_sid_ids_owned)
  have b2: "sids_below ?s2"
    unfolding sids_below_def
  proof (intro allI impI)
    fix z assume "z < length (conns ?s2)"
    then have z: "z < Suc ?zk" by (simp add: len1)
    show "sessionWatchId (conns ?s2 ! z) < watchCounter ?s2"
    proof (cases "z = ?zk")
      case True
      have "sessionWatchId (conns ?s2 ! ?zk) = ?c" by (simp add: len1)
      with counter_less_succ [OF n] True show ?thesis by (simp add: cnt2)
    next
      case False
      with z have "z < ?zk" by simp
      with b have lt: "sessionWatchId (conns s ! z) < ?c" by (simp add: sids_below_def)
      from sid2 [OF z] False
      have e: "sessionWatchId (conns ?s2 ! z) = sessionWatchId (conns s ! z)" by simp
      from below_succ [OF n lt] show ?thesis unfolding e cnt2 .
    qed
  qed
  from o2 b2 have a2: "ids_allocated ?s2" by (simp add: ids_allocated_def)
  from br' show "ids_allocated s'"
  proof
    assume "closeAllWatches ?zk ?s2 = Done s'"
    from closeAllWatches_ids_allocated [OF wf2 a2 this] show ?thesis .
  next
    assume "\<exists>h. s' = runWatchLoop (?s2\<lparr>conns := list_update (conns ?s2) ?zk
                        ((conns ?s2 ! ?zk)\<lparr>handle := Some h\<rparr>)\<rparr>)"
    then obtain h where s': "s' = runWatchLoop (?s2\<lparr>conns := list_update (conns ?s2) ?zk
                        ((conns ?s2 ! ?zk)\<lparr>handle := Some h\<rparr>)\<rparr>)" by blast
    have "ids_allocated s' = ids_allocated ?s2"
      by (rule ids_allocated_cong) (simp_all add: s' len1 map_update map_update_same)
    with a2 show ?thesis by simp
  qed
  assume p: "session_pending zk ch s"
  let ?sid = "sessionWatchId (conns s ! zk)"
  from p have zk: "zk < ?zk" and chl: "ch < length (chans s)"
    by (simp_all add: session_pending_def)
  have i0: "sessionWatchId (conns ?s0 ! zk) = ?sid" using zk by (simp add: nth_append)
  have p0: "session_pending zk ch ?s0"
    using zk by (intro session_pending_same [OF p]) (simp_all add: new_conn_wc nth_append)
  from createWatch_session_pending [OF o0 p0 c] i0
  have p1: "session_pending zk ch s1" and i1: "sessionWatchId (conns s1 ! zk) = ?sid"
    by simp_all
  have i2: "sessionWatchId (conns ?s2 ! zk) = ?sid" using zk i1 by simp
  have p2: "session_pending zk ch ?s2"
    using zk i1 by (intro session_pending_same [OF p1]) (simp_all add: set_sid_wc)
  from br' show "session_pending zk ch s'
         \<and> sessionWatchId (conns s' ! zk) = sessionWatchId (conns s ! zk)"
  proof
    assume cl: "closeAllWatches ?zk ?s2 = Done s'"
    have ne: "zk \<noteq> ?zk" using zk by simp
    from closeAllWatches_session_pending [OF wf2 a2 cl p2 ne] i2 show ?thesis by simp
  next
    assume "\<exists>h. s' = runWatchLoop (?s2\<lparr>conns := list_update (conns ?s2) ?zk
                        ((conns ?s2 ! ?zk)\<lparr>handle := Some h\<rparr>)\<rparr>)"
    then obtain h where s': "s' = runWatchLoop (?s2\<lparr>conns := list_update (conns ?s2) ?zk
                        ((conns ?s2 ! ?zk)\<lparr>handle := Some h\<rparr>)\<rparr>)" by blast
    have "session_pending zk ch s'
          \<and> sessionWatchId (conns s' ! zk) = sessionWatchId (conns ?s2 ! zk)"
      using session_pending_cong [of s' ?s2 zk ch] p2
      by (simp add: s' len1 map_update map_update_same)
    with i2 show ?thesis by simp
  qed
qed

lemma step_ids_allocated:
  assumes "wf_process s" "ids_allocated s" "watchCounter s \<noteq> - 1"
    "step rt c s w = Done (s', w')"
  shows "ids_allocated s'"
    and "watchCounter s' = watchCounter s \<or> watchCounter s' = watchCounter s + 1"
    and "session_pending zk ch s \<Longrightarrow> c \<noteq> CallClose zk
         \<Longrightarrow> session_pending zk ch s'
             \<and> sessionWatchId (conns s' ! zk) = sessionWatchId (conns s ! zk)"
proof -
  have "ids_allocated s'
      \<and> (watchCounter s' = watchCounter s \<or> watchCounter s' = watchCounter s + 1)
      \<and> (session_pending zk ch s \<longrightarrow> c \<noteq> CallClose zk
           \<longrightarrow> session_pending zk ch s'
               \<and> sessionWatchId (conns s' ! zk) = sessionWatchId (conns s ! zk))"
  proof (cases c)
    case (Dial servers t)
    with assms(4) obtain r err where "dial rt servers t s w = Done (r, err, s', w')"
      by (auto split: outcome.splits)
    from dial_invariants [OF assms(1,2,3) this] show ?thesis by simp
  next
    case (CallClose zk')
    with assms(4) obtain err where cl: "Close rt zk' s w = Done (err, s', w')"
      by (auto split: outcome.splits)
    from Close_ids_allocated [OF assms(1,2) cl] Close_session_pending [OF assms(1,2) cl, where zk = zk and ch = ch]
      CallClose
    show ?thesis by auto
  next
    case (CallGetW zk' path)
    with assms(4) obtain r where "GetW rt zk' path s w = Done (r, s', w')"
      by (auto split: outcome.splits)
    moreover obtain dat stat watch err where "r = (dat, stat, watch, err)"
      by (metis prod.exhaust)
    ultimately have "GetW rt zk' path s w = Done ((dat, stat, watch, err), s', w')" by simp
    from GetW_cases [OF this] obtain watchId watchChannel s1 where
      "createWatch zk' True s = Done (watchId, watchChannel, s1)"
      "s' = s1 \<or> s' = delete_watch zk' watchId s1" by blast
    from create_maybe_forget_ids [OF assms(2) this] assms(3)
    show ?thesis by simp
  next
    case (CallChildrenW zk' path)
    with assms(4) obtain r where "ChildrenW rt zk' path s w = Done (r, s', w')"
      by (auto split: outcome.splits)
    moreover obtain children stat watch err where "r = (children, stat, watch, err)"
      by (metis prod.exhaust)
    ultimately have "ChildrenW rt zk' path s w = Done ((children, stat, watch, err), s', w')"
      by simp
    from ChildrenW_cases [OF this] obtain watchId watchChannel s1 where
      "createWatch zk' True s = Done (watchId, watchChannel, s1)"
      "s' = s1 \<or> s' = delete_watch zk' watchId s1" by blast
    from create_maybe_forget_ids [OF assms(2) this] assms(3)
    show ?thesis by simp
  next
    case (CallExistsW zk' path)
    with assms(4) obtain r where "ExistsW rt zk' path s w = Done (r, s', w')"
      by (auto split: outcome.splits)
    moreover obtain stat watch err where "r = (stat, watch, err)"
      by (metis prod.exhaust)
    ultimately have "ExistsW rt zk' path s w = Done ((stat, watch, err), s', w')" by simp
    from ExistsW_cases [OF this] obtain watchId watchChannel s1 where
      "createWatch zk' True s = Done (watchId, watchChannel, s1)"
      "s' = s1 \<or> s' = delete_watch zk' watchId s1" by blast
    from create_maybe_forget_ids [OF assms(2) this] assms(3)
    show ?thesis by simp
  next
    case (Dispatch watchId event)
    with assms(4) have se: "sendEvent watchId event s = Done s'"
      by (auto split: outcome.splits)
    from sendEvent_ids_allocated [OF assms(2) se] sendEvent_counter [OF se]
      sendEvent_session_pending [OF assms(1) _ se, where zk = zk and ch = ch]
    show ?thesis by simp
  next
    case (Receive ch')
    with assms(4) have s': "s' = receive ch' s" by simp
    have "ids_allocated s' = ids_allocated s"
      by (rule ids_allocated_cong) (simp_all add: s' receive_state)
    moreover have "session_pending zk ch s \<Longrightarrow> session_pending zk ch s'
               \<and> sessionWatchId (conns s' ! zk) = sessionWatchId (conns s ! zk)"
      using session_pending_cong [of s' s zk ch] by (simp add: s' receive_state)
    ultimately show ?thesis using assms(2) by (simp add: s' receive_state)
  next
    case (Outside f)
    with assms show ?thesis by auto
  qed
  then show "ids_allocated s'"
    and "watchCounter s' = watchCounter s \<or> watchCounter s' = watchCounter s + 1"
    and "session_pending zk ch s \<Longrightarrow> c \<noteq> CallClose zk
         \<Longrightarrow> session_pending zk ch s'
             \<and> sessionWatchId (conns s' ! zk) = sessionWatchId (conns s ! zk)"
    by simp_all
qed

lemma run_ids_allocated:
  "wf_process s \<Longrightarrow> ids_allocated s \<Longrightarrow> unat (watchCounter s) + length calls < 2 ^ 64
   \<Longrightarrow> run rt calls s w = Done (s', w')
   \<Longrightarrow> ids_allocated s' \<and> unat (watchCounter s') \<le> unat (watchCounter s) + length calls"
proof (induction calls arbitrary: s w)
  case Nil
  then show ?case by simp
next
  case (Cons c cs)
  from Cons.prems(4) obtain sm wm where sm: "step rt c s w = Done (sm, wm)"
    and r: "run rt cs sm wm = Done (s', w')" by (auto split: outcome.splits)
  from Cons.prems(3) have b: "unat (watchCounter s) + 1 < 2 ^ 64" by simp
  note n = unat_counter_succ [OF b]
  note st = step_ids_allocated [OF Cons.prems(1,2) n(1) sm]
  from st(2) n(2) have le: "unat (watchCounter sm) \<le> Suc (unat (watchCounter s))" by auto
  with Cons.prems(3) have "unat (watchCounter sm) + length cs < 2 ^ 64" by simp
  from Cons.IH [OF step_wf [OF Cons.prems(1) sm] st(1) this r] le show ?case by simp
qed

lemma run_session_pending:
  "wf_process s \<Longrightarrow> ids_allocated s \<Longrightarrow> unat (watchCounter s) + length calls < 2 ^ 64
   \<Longrightarrow> session_pending zk ch s \<Longrightarrow> CallClose zk \<notin> set calls
   \<Longrightarrow> run rt calls s w = Done (s', w')
   \<Longrightarrow> session_pending zk ch s'
       \<and> sessionWatchId (conns s' ! zk) = sessionWatchId (conns s ! zk)"
proof (induction calls arbitrary: s w)
  case Nil
  then show ?case by simp
next
  case (Cons c cs)
  from Cons.prems(6) obtain sm wm where sm: "step rt c s w = Done (sm, wm)"
    and r: "run rt cs sm wm = Done (s', w')" by (auto split: outcome.splits)
  from Cons.prems(3) have b: "unat (watchCounter s) + 1 < 2 ^ 64" by simp
  note n = unat_counter_succ [OF b]
  note st = step_ids_allocated [OF Cons.prems(1,2) n(1) sm]
  from st(2) n(2) have le: "unat (watchCounter sm) \<le> Suc (unat (watchCounter s))" by auto
  with Cons.prems(3) have bm: "unat (watchCounter sm) + length cs < 2 ^ 64" by simp
  from Cons.prems(5) have nc: "c \<noteq> CallClose zk" "CallClose zk \<notin> set cs" by auto
  from st(3) [OF Cons.prems(4) nc(1)]
  have pm: "session_pending zk ch sm"
    and im: "sessionWatchId (conns sm ! zk) = sessionWatchId (conns s ! zk)" by simp_all
  from Cons.IH [OF step_wf [OF Cons.prems(1) sm] st(1) bm pm nc(2) r] im show ?case by simp
qed

text \<open>
  Every process that fewer than $2^{64}$ calls reach from the initial one has all its
  ids below the counter.
\<close>

lemma ids_allocated_init_process: "ids_allocated init_process"
  by (simp add: ids_allocated_def ids_owned_def sids_below_def init_process_def)

lemma reachable_ids_allocated:
  assumes "run rt calls init_process w = Done (s, w')" "length calls < 2 ^ 64"
  shows "ids_allocated s"
proof -
  have "unat (watchCounter init_process) + length calls < 2 ^ 64"
    using assms(2) by (simp add: init_process_def)
  from run_ids_allocated [OF wf_init_process ids_allocated_init_process this assms(1)]
  show ?thesis by simp
qed

subsection \<open>One-shot retirement and session persistence\<close>

text \<open>
  C5, as stated, fails once the counter has wrapped around and createWatch hands out an
  id that is in use. From a well-formed process whose session watch (id 0, channel 0) is
  registered, with the counter back at 0: a GetW that fails registers its watch under id
  0 and forgets it again, which removes the session watch from both maps although the
  connection has not been closed (its handle is still set); a GetW that succeeds returns
  a stream registered under the session-watch id, which accepts two events and is not
  closed.
\<close>

theorem session_watch_lost_on_id_reuse_counterexample:
  "wf_process reused_process \<and> session_pending 0 0 reused_process
   \<and> handle (conns reused_process ! 0) = Some 1
   \<and> (\<exists>s'. GetW (demo_rt (\<lambda>_. ZNONODE)) 0 ''/test'' reused_process 2
              = Done (([], None, None, Some (Code ZNONODE)), s', 3)
         \<and> handle (conns s' ! 0) = Some 1
         \<and> map_of (watchConns s') 0 = None \<and> map_of (wc s' 0) 0 = None
         \<and> \<not> session_pending 0 0 s')
   \<and> (\<exists>s' sa. GetW (demo_rt (\<lambda>_. ZOK)) 0 ''/test'' reused_process 2
              = Done ((''one'', Some demo_stat, Some 2, None), s', 3)
         \<and> run (demo_rt (\<lambda>_. ZOK)) [Dispatch 0 demo_changed, Dispatch 0 demo_changed] s' 3
              = Done (sa, 3)
         \<and> map_of (wc sa 0) (sessionWatchId (conns sa ! 0)) = Some 2
         \<and> ch_sent (chans sa ! 2) = 2 \<and> \<not> ch_closed (chans sa ! 2))"
proof (intro conjI)
  show "wf_process reused_process"
    by (simp add: wf_process_def reused_process_def demo_process_def demo_conn_def wc_def
        new_chan_def All_less_Suc)
  show "session_pending 0 0 reused_process"
    by (simp add: session_pending_def reused_process_def demo_process_def demo_conn_def
        wc_def new_chan_def)
  show "handle (conns reused_process ! 0) = Some 1"
    by (simp add: reused_process_def demo_process_def demo_conn_def)
  show "\<exists>s'. GetW (demo_rt (\<lambda>_. ZNONODE)) 0 ''/test'' reused_process 2
              = Done (([], None, None, Some (Code ZNONODE)), s', 3)
         \<and> handle (conns s' ! 0) = Some 1
         \<and> map_of (watchConns s') 0 = None \<and> map_of (wc s' 0) 0 = None
         \<and> \<not> session_pending 0 0 s'"
    by (simp add: GetW_def createWatch_def forgetWatch_def delete_watch_def
        set_watchChannels_def demo_rt_def reused_process_def demo_process_def demo_conn_def
        zkError_def session_pending_def wc_def Let_def)
  show "\<exists>s' sa. GetW (demo_rt (\<lambda>_. ZOK)) 0 ''/test'' reused_process 2
              = Done ((''one'', Some demo_stat, Some 2, None), s', 3)
         \<and> run (demo_rt (\<lambda>_. ZOK)) [Dispatch 0 demo_changed, Dispatch 0 demo_changed] s' 3
              = Done (sa, 3)
         \<and> map_of (wc sa 0) (sessionWatchId (conns sa ! 0)) = Some 2
         \<and> ch_sent (chans sa ! 2) = 2 \<and> \<not> ch_closed (chans sa ! 2)"
    by (simp add: GetW_def createWatch_def set_watchChannels_def demo_rt_def
        reused_process_def demo_process_def demo_conn_def sendEvent_def try_send_def
        demo_changed_def event_consts new_chan_def wc_def Let_def)
qed

text \<open>
  C5, amended. When sendEvent delivers an event to a watch that is not the session watch
  (the event reaches the send and the channel has room), the id is gone from both
  registry maps and the channel is closed, with the event as its last element. While
  every id in use is below the counter (\<open>ids_allocated\<close>: the counter has not
  wrapped around), the stream that GetW, ChildrenW or ExistsW returns is that of a
  pending one-shot watch: it is registered under an id other than the session-watch id
  and has accepted no send; over any run of calls after that, it accepts at most one
  send, and once it has, it is closed and registered nowhere. The same holds, over any
  run of calls from a well-formed registry, for every stream registered under an id
  other than its connection's session-watch id. A receive takes the waiting event first;
  from a closed and drained channel it yields the zeroed event, whose type is
  \<^verbatim>\<open>EVENT_CLOSED\<close> and state \<^verbatim>\<open>STATE_CLOSED\<close>, and does not block. However many
  notifications the dispatcher delivers, a registered session watch stays registered,
  with its channel open. It stays so over every run of calls (Dial, Close on other
  connections, GetW, ChildrenW, ExistsW, failing or not, deliveries, receives) that
  contains no Close on its connection and during which the counter does not wrap
  around. Close on its connection retires it: the id is gone from both maps and the
  channel is closed. Every process that fewer than $2^{64}$ calls reach from the initial
  one is well formed and has every id in use below the counter.
\<close>

theorem oneshot_retired_session_kept_below_wrap:
  "(reaches_send watchId event s zk ch \<and> watchId \<noteq> sessionWatchId (conns s ! zk)
      \<and> length (ch_buf (chans s ! ch)) < ch_cap (chans s ! ch)
    \<longrightarrow> (\<exists>s'. sendEvent watchId event s = Done s'
            \<and> map_of (watchConns s') watchId = None \<and> map_of (wc s' zk) watchId = None
            \<and> ch_closed (chans s' ! ch)
            \<and> ch_buf (chans s' ! ch) = ch_buf (chans s ! ch) @ [event]))
   \<and> (ids_allocated s
      \<and> (GetW rt zk path s w = Done ((dat, stat, Some gch, err), sg, wg)
         \<or> ChildrenW rt zk path s w = Done ((children, stat, Some gch, err), sg, wg)
         \<or> ExistsW rt zk path s w = Done ((stat, Some gch, err), sg, wg))
    \<longrightarrow> pending_oneshot gch sg \<and> gch < length (chans sg) \<and> ch_sent (chans sg ! gch) = 0)
   \<and> (wf_process s \<and> ids_allocated s
      \<and> (GetW rt zk path s w = Done ((dat, stat, Some gch, err), sg, wg)
         \<or> ChildrenW rt zk path s w = Done ((children, stat, Some gch, err), sg, wg)
         \<or> ExistsW rt zk path s w = Done ((stat, Some gch, err), sg, wg))
      \<and> run rt gcalls sg wg = Done (sh, wh)
    \<longrightarrow> ch_sent (chans sh ! gch) \<le> 1
        \<and> (ch_sent (chans sh ! gch) = 1
             \<longrightarrow> ch_closed (chans sh ! gch) \<and> \<not> registered gch sh))
   \<and> (wf_process s \<and> pending_oneshot och s \<and> run rt calls s w = Done (sa, wa)
    \<longrightarrow> ch_sent (chans sa ! och) \<le> Suc (ch_sent (chans s ! och))
        \<and> (ch_sent (chans sa ! och) = Suc (ch_sent (chans s ! och))
             \<longrightarrow> ch_closed (chans sa ! och) \<and> \<not> registered och sa))
   \<and> (ch_buf c = e # es \<longrightarrow> recv c = Some (e, True, c\<lparr>ch_buf := es\<rparr>))
   \<and> (ch_buf c = [] \<and> ch_closed c \<longrightarrow> recv c = Some (zero_Event, False, c))
   \<and> Type zero_Event = EVENT_CLOSED \<and> State zero_Event = STATE_CLOSED
   \<and> (wf_process s \<and> session_pending szk sch s \<and> watchLoop ns s = Done sb
    \<longrightarrow> session_pending szk sch sb
        \<and> sessionWatchId (conns sb ! szk) = sessionWatchId (conns s ! szk))
   \<and> (wf_process s \<and> ids_allocated s \<and> unat (watchCounter s) + length calls < 2 ^ 64
      \<and> session_pending szk sch s \<and> CallClose szk \<notin> set calls
      \<and> run rt calls s w = Done (sa, wa)
    \<longrightarrow> session_pending szk sch sa
        \<and> sessionWatchId (conns sa ! szk) = sessionWatchId (conns s ! szk))
   \<and> (wf_process s \<and> session_pending szk sch s \<and> handle (conns s ! szk) \<noteq> None
      \<and> Close rt szk s w = Done (cerr, sc, wd)
    \<longrightarrow> map_of (watchConns sc) (sessionWatchId (conns s ! szk)) = None
        \<and> wc sc szk = [] \<and> ch_closed (chans sc ! sch) \<and> \<not> session_pending szk sch sc)
   \<and> (run rt icalls init_process wi = Done (si, wj) \<and> length icalls < 2 ^ 64
    \<longrightarrow> wf_process si \<and> ids_allocated si)"
proof (intro conjI impI)
  assume a: "reaches_send watchId event s zk ch \<and> watchId \<noteq> sessionWatchId (conns s ! zk)
      \<and> length (ch_buf (chans s ! ch)) < ch_cap (chans s ! ch)"
  then have zk: "zk < length (conns s)" and chl: "ch < length (chans s)"
    by (simp_all add: reaches_send_def)
  let ?s' = "(delete_watch zk watchId s)\<lparr>chans := list_update (chans s) ch
        ((accepted (chans s ! ch) event)\<lparr>ch_closed := True\<rparr>)\<rparr>"
  from a have "sendEvent watchId event s = Done ?s'" by (simp add: sendEvent_oneshot_delivered)
  moreover have "map_of (watchConns ?s') watchId = None" by (simp add: delete_conv')
  moreover have "map_of (wc ?s' zk) watchId = None" using zk by (simp add: wc_def delete_conv')
  moreover have "ch_closed (chans ?s' ! ch)"
    "ch_buf (chans ?s' ! ch) = ch_buf (chans s ! ch) @ [event]"
    using chl by (simp_all add: accepted_def)
  ultimately show "\<exists>s'. sendEvent watchId event s = Done s'
            \<and> map_of (watchConns s') watchId = None \<and> map_of (wc s' zk) watchId = None
            \<and> ch_closed (chans s' ! ch)
            \<and> ch_buf (chans s' ! ch) = ch_buf (chans s ! ch) @ [event]" by blast
next
  assume a: "ids_allocated s
      \<and> (GetW rt zk path s w = Done ((dat, stat, Some gch, err), sg, wg)
         \<or> ChildrenW rt zk path s w = Done ((children, stat, Some gch, err), sg, wg)
         \<or> ExistsW rt zk path s w = Done ((stat, Some gch, err), sg, wg))"
  then have b: "sids_below s" by (simp add: ids_allocated_def)
  from a have "\<exists>watchId. createWatch zk True s = Done (watchId, gch, sg)"
    by (auto dest!: GetW_cases ChildrenW_cases ExistsW_cases)
  then obtain wid where "createWatch zk True s = Done (wid, gch, sg)" by blast
  from createWatch_pending_oneshot [OF b this]
  show "pending_oneshot gch sg" "gch < length (chans sg)" "ch_sent (chans sg ! gch) = 0" .
next
  assume a: "wf_process s \<and> ids_allocated s
      \<and> (GetW rt zk path s w = Done ((dat, stat, Some gch, err), sg, wg)
         \<or> ChildrenW rt zk path s w = Done ((children, stat, Some gch, err), sg, wg)
         \<or> ExistsW rt zk path s w = Done ((stat, Some gch, err), sg, wg))
      \<and> run rt gcalls sg wg = Done (sh, wh)"
  then have w: "wf_process s" and b: "sids_below s"
    and r: "run rt gcalls sg wg = Done (sh, wh)" by (simp_all add: ids_allocated_def)
  from a have "\<exists>watchId. createWatch zk True s = Done (watchId, gch, sg)"
    by (auto dest!: GetW_cases ChildrenW_cases ExistsW_cases)
  then obtain wid where c: "createWatch zk True s = Done (wid, gch, sg)" by blast
  from wf_createWatch [OF w c] have wg: "wf_process sg" .
  note po = createWatch_pending_oneshot [OF b c]
  from run_oneshot_inv [OF wg pending_oneshot_inv [OF wg po(1)] r] po(3)
  have inv: "oneshot_inv 0 gch sh" by simp
  then show "ch_sent (chans sh ! gch) \<le> 1"
    by (simp add: oneshot_inv_def split: if_splits)
  assume "ch_sent (chans sh ! gch) = 1"
  with inv show "ch_closed (chans sh ! gch)" "\<not> registered gch sh"
    by (simp_all add: oneshot_inv_def split: if_splits)
next
  assume a: "wf_process s \<and> pending_oneshot och s \<and> run rt calls s w = Done (sa, wa)"
  then have w: "wf_process s" and p: "pending_oneshot och s"
    and r: "run rt calls s w = Done (sa, wa)" by simp_all
  from run_oneshot_inv [OF w pending_oneshot_inv [OF w p] r]
  have inv: "oneshot_inv (ch_sent (chans s ! och)) och sa" .
  then show "ch_sent (chans sa ! och) \<le> Suc (ch_sent (chans s ! och))"
    by (simp add: oneshot_inv_def split: if_splits)
  assume "ch_sent (chans sa ! och) = Suc (ch_sent (chans s ! och))"
  with inv show "ch_closed (chans sa ! och)" "\<not> registered och sa"
    by (simp_all add: oneshot_inv_def split: if_splits)
next
  assume "ch_buf c = e # es"
  then show "recv c = Some (e, True, c\<lparr>ch_buf := es\<rparr>)" by (simp add: recv_def)
next
  assume "ch_buf c = [] \<and> ch_closed c"
  then show "recv c = Some (zero_Event, False, c)" by (simp add: recv_def)
next
  show "Type zero_Event = EVENT_CLOSED" "State zero_Event = STATE_CLOSED"
    by (simp_all add: zero_Event_def event_consts)
next
  assume a: "wf_process s \<and> session_pending szk sch s \<and> watchLoop ns s = Done sb"
  then have "session_pending szk sch sb
        \<and> sessionWatchId (conns sb ! szk) = sessionWatchId (conns s ! szk)"
    by (intro watchLoop_session_pending [of s szk sch ns sb]) simp_all
  then show "session_pending szk sch sb"
    "sessionWatchId (conns sb ! szk) = sessionWatchId (conns s ! szk)" by simp_all
next
  assume a: "wf_process s \<and> ids_allocated s \<and> unat (watchCounter s) + length calls < 2 ^ 64
      \<and> session_pending szk sch s \<and> CallClose szk \<notin> set calls
      \<and> run rt calls s w = Done (sa, wa)"
  then have "session_pending szk sch sa
        \<and> sessionWatchId (conns sa ! szk) = sessionWatchId (conns s ! szk)"
    by (intro run_session_pending [of s calls szk sch rt w sa wa]) simp_all
  then show "session_pending szk sch sa"
    "sessionWatchId (conns sa ! szk) = sessionWatchId (conns s ! szk)" by simp_all
next
  assume a: "wf_process s \<and> session_pending szk sch s \<and> handle (conns s ! szk) \<noteq> None
      \<and> Close rt szk s w = Done (cerr, sc, wd)"
  then have w: "wf_process s" and p: "session_pending szk sch s"
    and h: "handle (conns s ! szk) \<noteq> None" and c: "Close rt szk s w = Done (cerr, sc, wd)"
    by simp_all
  note r = Close_retires_session [OF w p h c]
  from r(1) show "map_of (watchConns sc) (sessionWatchId (conns s ! szk)) = None" .
  from r(2) show "wc sc szk = []" .
  from r(3) show "ch_closed (chans sc ! sch)" .
  from r(3) show "\<not> session_pending szk sch sc" by (simp add: session_pending_def)
next
  assume a: "run rt icalls init_process wi = Done (si, wj) \<and> length icalls < 2 ^ 64"
  then have r: "run rt icalls init_process wi = Done (si, wj)"
    and l: "length icalls < 2 ^ 64" by simp_all
  from run_wf [OF wf_init_process r] show "wf_process si" .
  from reachable_ids_allocated [OF r l] show "ids_allocated si" .
qed

lemma demo_run:
  "run (demo_rt (\<lambda>_. ZOK)) [Dispatch 1 demo_changed, Receive 1, Dispatch 1 demo_changed,
      Receive 1] demo_process 2 = Done (demo_drained, 2)"
  by (simp add: sendEvent_def receive_def recv_def demo_changed_def demo_process_def
      demo_delivered_def demo_drained_def demo_conn_def event_consts try_send_def
      close_chan_def delete_watch_def set_watchChannels_def new_chan_def zero_Event_def)

lemma demo_watchLoop:
  "watchLoop [(0, demo_connecting), (1, demo_changed), (0, demo_expired)] demo_process
     = Done (demo_delivered\<lparr>chans :=
          [(new_chan 32)\<lparr>ch_buf := [demo_connecting, demo_expired], ch_sent := 2\<rparr>,
           (new_chan 32)\<lparr>ch_buf := [demo_changed], ch_sent := 1, ch_closed := True\<rparr>]\<rparr>)"
  by (simp add: sendEvent_def demo_changed_def demo_connecting_def demo_expired_def
      demo_process_def demo_delivered_def demo_conn_def event_consts try_send_def
      close_chan_def delete_watch_def set_watchChannels_def new_chan_def)

lemma demo_GetW:
  "GetW (demo_rt (\<lambda>_. ZOK)) 0 ''/test'' demo_process 2
     = Done ((''one'', Some demo_stat, Some 2, None), demo_pending3, 3)"
  by (simp add: GetW_def createWatch_def set_watchChannels_def demo_rt_def
      demo_process_def demo_pending3_def demo_conn_def Let_def)

lemma demo_failing_run:
  "\<exists>sr wr. run (demo_rt (\<lambda>_. ZNONODE))
       [CallGetW 0 ''/test'', Dispatch 1 demo_changed, Dispatch 0 demo_connecting, Receive 0,
        Dial ''localhost:2181'' 5000000000] demo_process 2 = Done (sr, wr)"
  by (simp add: GetW_def createWatch_def forgetWatch_def delete_watch_def
      set_watchChannels_def demo_rt_def demo_process_def demo_conn_def sendEvent_def
      try_send_def close_chan_def receive_def recv_def dial_def runWatchLoop_def
      demo_changed_def demo_connecting_def event_consts new_chan_def Let_def)

lemma demo_Close:
  "\<exists>sc. Close (demo_rt (\<lambda>_. ZOK)) 0 demo_process 2 = Done (None, sc, 3)"
  by (simp add: Close_def closeAllWatches_def close_chan_def delete_watch_def
      set_watchChannels_def stopWatchLoop_def demo_rt_def demo_process_def demo_conn_def
      zkError_def new_chan_def Let_def)

lemma demo_reached:
  "run (demo_rt (\<lambda>_. ZOK)) [Dial ''localhost:2181'' 5000000000, CallGetW 0 ''/test'']
     init_process 0 = Done (demo_process, 2)"
  by (simp add: dial_def GetW_def createWatch_def runWatchLoop_def set_watchChannels_def
      demo_rt_def init_process_def demo_process_def demo_conn_def Let_def)

lemma demo_watch_run:
  "\<exists>sh wh. run (demo_rt (\<lambda>_. ZOK)) [Dispatch 2 demo_changed, Receive 2, Dispatch 2 demo_changed]
       demo_pending3 3 = Done (sh, wh) \<and> ch_sent (chans sh ! 2) = 1"
  by (simp add: sendEvent_def receive_def recv_def try_send_def close_chan_def
      delete_watch_def set_watchChannels_def demo_pending3_def demo_conn_def
      demo_changed_def event_consts new_chan_def Let_def)


theorem oneshot_retired_session_kept_below_wrap_witness:
  "reaches_send 1 demo_changed demo_process 0 1
   \<and> 1 \<noteq> sessionWatchId (conns demo_process ! 0)
   \<and> length (ch_buf (chans demo_process ! 1)) < ch_cap (chans demo_process ! 1)
   \<and> sendEvent 1 demo_changed demo_process = Done demo_delivered
   \<and> map_of (watchConns demo_delivered) 1 = None \<and> map_of (wc demo_delivered 0) 1 = None
   \<and> ch_closed (chans demo_delivered ! 1)
   \<and> ch_buf (chans demo_delivered ! 1) = [demo_changed]
   \<and> run (demo_rt (\<lambda>_. ZOK)) [Dial ''localhost:2181'' 5000000000, CallGetW 0 ''/test'']
        init_process 0 = Done (demo_process, 2)
   \<and> wf_process demo_process \<and> ids_allocated demo_process
   \<and> GetW (demo_rt (\<lambda>_. ZOK)) 0 ''/test'' demo_process 2
        = Done ((''one'', Some demo_stat, Some 2, None), demo_pending3, 3)
   \<and> pending_oneshot 2 demo_pending3 \<and> ch_sent (chans demo_pending3 ! 2) = 0
   \<and> (\<exists>sh wh. run (demo_rt (\<lambda>_. ZOK))
          [Dispatch 2 demo_changed, Receive 2, Dispatch 2 demo_changed] demo_pending3 3
          = Done (sh, wh)
         \<and> ch_sent (chans sh ! 2) = 1 \<and> ch_closed (chans sh ! 2) \<and> \<not> registered 2 sh)
   \<and> pending_oneshot 1 demo_process
   \<and> run (demo_rt (\<lambda>_. ZOK)) [Dispatch 1 demo_changed, Receive 1, Dispatch 1 demo_changed,
        Receive 1] demo_process 2 = Done (demo_drained, 2)
   \<and> ch_sent (chans demo_process ! 1) = 0 \<and> ch_sent (chans demo_drained ! 1) = 1
   \<and> ch_closed (chans demo_drained ! 1) \<and> \<not> registered 1 demo_drained
   \<and> recv (chans demo_delivered ! 1) = Some (demo_changed, True, chans demo_drained ! 1)
   \<and> recv (chans demo_drained ! 1) = Some (zero_Event, False, chans demo_drained ! 1)
   \<and> session_pending 0 0 demo_process
   \<and> (\<exists>sb. watchLoop [(0, demo_connecting), (1, demo_changed), (0, demo_expired)] demo_process
              = Done sb \<and> session_pending 0 0 sb)
   \<and> (\<exists>sr wr. run (demo_rt (\<lambda>_. ZNONODE))
          [CallGetW 0 ''/test'', Dispatch 1 demo_changed, Dispatch 0 demo_connecting,
           Receive 0, Dial ''localhost:2181'' 5000000000] demo_process 2 = Done (sr, wr)
         \<and> session_pending 0 0 sr \<and> sessionWatchId (conns sr ! 0) = 0)
   \<and> handle (conns demo_process ! 0) = Some 1
   \<and> (\<exists>sc. Close (demo_rt (\<lambda>_. ZOK)) 0 demo_process 2 = Done (None, sc, 3)
         \<and> map_of (watchConns sc) 0 = None \<and> wc sc 0 = [] \<and> ch_closed (chans sc ! 0)
         \<and> \<not> session_pending 0 0 sc)"
proof -
  have a: "reaches_send 1 demo_changed demo_process 0 1"
    "1 \<noteq> sessionWatchId (conns demo_process ! 0)"
    "length (ch_buf (chans demo_process ! 1)) < ch_cap (chans demo_process ! 1)"
    by (simp_all add: reaches_send_def demo_process_def demo_conn_def demo_changed_def
        new_chan_def event_consts)
  have p: "pending_oneshot 1 demo_process"
    unfolding pending_oneshot_def
    by (rule exI [of _ 0]) (simp add: demo_process_def demo_conn_def wc_def)
  have sp: "session_pending 0 0 demo_process"
    by (simp add: session_pending_def demo_process_def demo_conn_def wc_def new_chan_def)
  have sid: "sessionWatchId (conns demo_process ! 0) = 0"
    and h: "handle (conns demo_process ! 0) = Some 1"
    by (simp_all add: demo_process_def demo_conn_def)
  have b: "ch_buf (chans demo_delivered ! 1) = demo_changed # []"
    "ch_buf (chans demo_drained ! 1) = [] \<and> ch_closed (chans demo_drained ! 1)"
    "(chans demo_delivered ! 1)\<lparr>ch_buf := []\<rparr> = chans demo_drained ! 1"
    "ch_sent (chans demo_process ! 1) = 0" "ch_sent (chans demo_drained ! 1) = 1"
    by (simp_all add: demo_delivered_def demo_drained_def demo_process_def new_chan_def)
  obtain sb where sb: "watchLoop [(0, demo_connecting), (1, demo_changed), (0, demo_expired)]
      demo_process = Done sb" using demo_watchLoop by blast
  obtain sr wr where sr: "run (demo_rt (\<lambda>_. ZNONODE))
       [CallGetW 0 ''/test'', Dispatch 1 demo_changed, Dispatch 0 demo_connecting, Receive 0,
        Dial ''localhost:2181'' 5000000000] demo_process 2 = Done (sr, wr)"
    using demo_failing_run by blast
  obtain sc where sc: "Close (demo_rt (\<lambda>_. ZOK)) 0 demo_process 2 = Done (None, sc, 3)"
    using demo_Close by blast
  obtain sh wh where sh: "run (demo_rt (\<lambda>_. ZOK))
       [Dispatch 2 demo_changed, Receive 2, Dispatch 2 demo_changed] demo_pending3 3
       = Done (sh, wh)" "ch_sent (chans sh ! 2) = 1"
    using demo_watch_run by blast
  have il: "length [Dial ''localhost:2181'' 5000000000, CallGetW 0 ''/test'' :: nat call]
      < 2 ^ 64" by simp
  have nw: "unat (watchCounter demo_process)
      + length [CallGetW 0 ''/test'', Dispatch 1 demo_changed, Dispatch 0 demo_connecting,
           Receive 0, Dial ''localhost:2181'' 5000000000 :: nat call] < 2 ^ 64"
    by (simp add: demo_process_def)
  have nc: "CallClose 0 \<notin> set [CallGetW 0 ''/test'', Dispatch 1 demo_changed,
      Dispatch 0 demo_connecting, Receive 0, Dial ''localhost:2181'' 5000000000 :: nat call]"
    by simp
  note T = oneshot_retired_session_kept_below_wrap [where watchId = 1 and event = demo_changed
      and s = demo_process and zk = 0 and ch = 1 and och = 1
      and rt = "demo_rt (\<lambda>_. ZOK)"
      and calls = "[Dispatch 1 demo_changed, Receive 1, Dispatch 1 demo_changed, Receive 1]"
      and w = 2 and sa = demo_drained and wa = 2
      and c = "chans demo_delivered ! 1" and e = demo_changed and es = "[]"
      and szk = 0 and sch = 0
      and ns = "[(0, demo_connecting), (1, demo_changed), (0, demo_expired)]" and sb = sb
      and cerr = None and sc = sc and wd = 3
      and path = "''/test''" and dat = "''one''" and stat = "Some demo_stat" and gch = 2
      and err = None and sg = demo_pending3 and wg = 3
      and gcalls = "[Dispatch 2 demo_changed, Receive 2, Dispatch 2 demo_changed]"
      and sh = sh and wh = wh
      and icalls = "[Dial ''localhost:2181'' 5000000000, CallGetW 0 ''/test'']"
      and wi = 0 and si = demo_process and wj = 2]
  note R = oneshot_retired_session_kept_below_wrap [where c = "chans demo_drained ! 1"]
  note S = oneshot_retired_session_kept_below_wrap [where s = demo_process
      and rt = "demo_rt (\<lambda>_. ZNONODE)" and w = 2 and szk = 0 and sch = 0
      and calls = "[CallGetW 0 ''/test'', Dispatch 1 demo_changed, Dispatch 0 demo_connecting,
           Receive 0, Dial ''localhost:2181'' 5000000000]" and sa = sr and wa = wr]
  note c_deliver = T [THEN conjunct1]
  note t1 = T [THEN conjunct2]
  note c_stream = t1 [THEN conjunct1]
  note t2 = t1 [THEN conjunct2]
  note c_stream_run = t2 [THEN conjunct1]
  note t3 = t2 [THEN conjunct2]
  note c_oneshot = t3 [THEN conjunct1]
  note t4 = t3 [THEN conjunct2]
  note c_recv = t4 [THEN conjunct1]
  note t8 = t4 [THEN conjunct2, THEN conjunct2, THEN conjunct2, THEN conjunct2]
  note c_loop = t8 [THEN conjunct1]
  note t10 = t8 [THEN conjunct2, THEN conjunct2]
  note c_close = t10 [THEN conjunct1]
  note c_reach = t10 [THEN conjunct2]
  note c_closed = R [THEN conjunct2, THEN conjunct2, THEN conjunct2, THEN conjunct2,
      THEN conjunct2, THEN conjunct1]
  note c_session = S [THEN conjunct2, THEN conjunct2, THEN conjunct2, THEN conjunct2,
      THEN conjunct2, THEN conjunct2, THEN conjunct2, THEN conjunct2, THEN conjunct2,
      THEN conjunct1]
  from c_reach demo_reached il have "wf_process demo_process \<and> ids_allocated demo_process"
    by simp
  then have wf: "wf_process demo_process" and ia: "ids_allocated demo_process" by simp_all
  from c_deliver a demo_sendEvent
  have d: "map_of (watchConns demo_delivered) 1 = None" "map_of (wc demo_delivered 0) 1 = None"
    "ch_closed (chans demo_delivered ! 1)" by simp_all
  from c_stream ia demo_GetW
  have g: "pending_oneshot 2 demo_pending3" "ch_sent (chans demo_pending3 ! 2) = 0"
    by simp_all
  from c_stream_run wf ia demo_GetW sh
  have g2: "ch_closed (chans sh ! 2)" "\<not> registered 2 sh" by simp_all
  from c_oneshot wf p demo_run b(4,5)
  have o: "ch_closed (chans demo_drained ! 1)" "\<not> registered 1 demo_drained" by simp_all
  from c_recv b(1,3) have r1: "recv (chans demo_delivered ! 1)
      = Some (demo_changed, True, chans demo_drained ! 1)" by simp
  from c_closed b(2)
  have r2: "recv (chans demo_drained ! 1)
      = Some (zero_Event, False, chans demo_drained ! 1)" by simp
  from c_loop wf sp sb have s3: "session_pending 0 0 sb" by simp
  from c_session wf ia nw sp nc sr
  have s4: "session_pending 0 0 sr" "sessionWatchId (conns sr ! 0) = 0"
    by (simp_all add: sid)
  from c_close wf sp h sc
  have s5: "map_of (watchConns sc) 0 = None" "wc sc 0 = []" "ch_closed (chans sc ! 0)"
    "\<not> session_pending 0 0 sc" by (simp_all add: sid)
  have e1: "\<exists>sh wh. run (demo_rt (\<lambda>_. ZOK))
          [Dispatch 2 demo_changed, Receive 2, Dispatch 2 demo_changed] demo_pending3 3
          = Done (sh, wh)
         \<and> ch_sent (chans sh ! 2) = 1 \<and> ch_closed (chans sh ! 2) \<and> \<not> registered 2 sh"
    using sh g2 by blast
  have e2: "\<exists>sb. watchLoop [(0, demo_connecting), (1, demo_changed), (0, demo_expired)]
      demo_process = Done sb \<and> session_pending 0 0 sb"
    using sb s3 by blast
  have e3: "\<exists>sr wr. run (demo_rt (\<lambda>_. ZNONODE))
          [CallGetW 0 ''/test'', Dispatch 1 demo_changed, Dispatch 0 demo_connecting,
           Receive 0, Dial ''localhost:2181'' 5000000000] demo_process 2 = Done (sr, wr)
         \<and> session_pending 0 0 sr \<and> sessionWatchId (conns sr ! 0) = 0"
    using sr s4 by blast
  have e4: "\<exists>sc. Close (demo_rt (\<lambda>_. ZOK)) 0 demo_process 2 = Done (None, sc, 3)
         \<and> map_of (watchConns sc) 0 = None \<and> wc sc 0 = [] \<and> ch_closed (chans sc ! 0)
         \<and> \<not> session_pending 0 0 sc"
    using sc s5 by blast
  from b(1) have b1: "ch_buf (chans demo_delivered ! 1) = [demo_changed]" by simp
  show ?thesis
    by (intro conjI a demo_sendEvent d b1 demo_reached wf ia demo_GetW g e1 p demo_run
        b(4,5) o r1 r2 sp e2 e3 h e4)
qed

text \<open>Every process that a run of calls reaches from the initial one is well formed.\<close>

lemma reachable_wf:
  "run rt calls init_process w = Done (s, w') \<Longrightarrow> wf_process s"
  using wf_init_process by (rule run_wf)

subsection \<open>Event.Ok\<close>

text \<open>
  C10. \<^verbatim>\<open>Event.Ok\<close> returns true if and only if the event's State equals
  \<^verbatim>\<open>STATE_CONNECTED\<close>: with the state expired-session, auth-failed, connecting,
  associating or closed it is false, and so it is for the zeroed event that a closed
  channel yields.
\<close>

theorem Ok_iff_STATE_CONNECTED:
  "Ok e = (State e = STATE_CONNECTED)
   \<and> Ok (e\<lparr>State := STATE_CONNECTED\<rparr>)
   \<and> \<not> Ok (e\<lparr>State := STATE_EXPIRED_SESSION\<rparr>)
   \<and> \<not> Ok (e\<lparr>State := STATE_AUTH_FAILED\<rparr>)
   \<and> \<not> Ok (e\<lparr>State := STATE_CONNECTING\<rparr>)
   \<and> \<not> Ok (e\<lparr>State := STATE_ASSOCIATING\<rparr>)
   \<and> \<not> Ok (e\<lparr>State := STATE_CLOSED\<rparr>)
   \<and> \<not> Ok zero_Event"
  by (simp add: Ok_def zero_Event_def event_consts)


end
